theory Spec2Isabelle
  imports Complex_Main "HOL-Library.Multiset"
begin

section \<open>The DAC directive viewer (app.js)\<close>

text \<open>
  A shallow embedding of the viewer's provenance resolver (\<open>lowestDac\<close>), its filter
  engine (\<open>updateFilters\<close>) and its search engine (\<open>performSearch\<close>, \<open>clearSearch\<close>,
  \<open>navigateSearch\<close>, \<open>highlightTextNodes\<close>). JavaScript strings are \<open>string\<close>, arrays
  are lists, the module variables and the parts of the DOM the code reads and writes are
  fields of records, and the host's answers (layout, scrolling) are explicit arguments.
\<close>

subsection \<open>Provenance resolver\<close>

text \<open>The constants of lines 23 to 28.\<close>

definition ALL_DACS :: "string list" where
  "ALL_DACS = [''DAC1'', ''DAC2'', ''DAC3'', ''DAC4'', ''DAC5'', ''DAC6'', ''DAC7'', ''COVID'']"

definition NORWAY_RELEVANT :: "string list" where
  "NORWAY_RELEVANT = [''DAC1'', ''DAC2'', ''DAC3'', ''DAC6'']"

definition DAC_ORDER :: "string list" where
  "DAC_ORDER = [''DAC1'', ''DAC2'', ''DAC3'', ''DAC4'', ''DAC5'', ''DAC6'', ''COVID'', ''DAC7'']"

text \<open>\<open>Array.prototype.indexOf\<close>: the first position of the element, or \<open>-1\<close>.\<close>

fun indexOf :: "'a list \<Rightarrow> 'a \<Rightarrow> int" where
  "indexOf [] x = - 1"
| "indexOf (y # ys) x =
     (if y = x then 0 else (let i = indexOf ys x in if i = - 1 then - 1 else i + 1))"

text \<open>
  The comparator of \<open>lowestDac\<close> (lines 39 to 44): the difference of the two positions in
  \<open>DAC_ORDER\<close>, a tag outside the catalog counting as position 999.
\<close>

definition dacRank :: "string \<Rightarrow> int" where
  "dacRank a = (let ai = indexOf DAC_ORDER a in if ai = - 1 then 999 else ai)"

definition compareDac :: "string \<Rightarrow> string \<Rightarrow> int" where
  "compareDac a b = dacRank a - dacRank b"

text \<open>
  \<open>Array.prototype.sort\<close> with a comparator is a stable sort: of two elements that the
  comparator does not separate, the one that came first stays first. It is written here
  as an insertion sort that puts an element before the first one it does not exceed,
  working from the right end of the array.
\<close>

fun sortInsert :: "('a \<Rightarrow> 'a \<Rightarrow> int) \<Rightarrow> 'a \<Rightarrow> 'a list \<Rightarrow> 'a list" where
  "sortInsert cmp x [] = [x]"
| "sortInsert cmp x (y # ys) = (if cmp x y \<le> 0 then x # y # ys else y # sortInsert cmp x ys)"

definition arraySort :: "('a \<Rightarrow> 'a \<Rightarrow> int) \<Rightarrow> 'a list \<Rightarrow> 'a list" where
  "arraySort cmp xs = foldr (sortInsert cmp) xs []"

text \<open>
  \<open>lowestDac\<close> (lines 36 to 46). The guard of line 37 answers \<open>'DAC1'\<close> for an empty
  array (and for a missing one, which takes the same branch); otherwise the result is
  element 0 of the sorted copy, which exists because the copy is as long as the array.
\<close>

definition lowestDac :: "string list \<Rightarrow> string" where
  "lowestDac sources =
     (if length sources = 0 then ''DAC1'' else hd (arraySort compareDac sources))"

text \<open>
  The resolver as sections 4.1 and 7 of the specification word it, kept apart from the
  code for comparison: an empty provenance set is answered by a \<open>DataIntegrityError\<close>.
\<close>

datatype resolver_error = DataIntegrityError

definition primary_spec :: "string list \<Rightarrow> resolver_error + string" where
  "primary_spec tags = (if tags = [] then Inl DataIntegrityError else Inr (lowestDac tags))"

subsection \<open>The document as the filter and the search engine see it\<close>

text \<open>
  A DOM node of a rendered body is a text node or an element with its class list (a set
  of tokens, as \<open>classList\<close> treats it) and its children.
\<close>

datatype node = Text string | Elem "string set" "node list"

text \<open>
  A filter button of \<open>renderFilters\<close>: its \<open>data-dac\<close> tag and whether it carries the
  class \<open>active\<close>. A \<open>.dac-zone\<close> region with its \<open>data-dac\<close> tag and whether it
  carries \<open>dac-zone-hidden\<close>; the zones are listed apart from the body trees, since the
  filter is the only code that reads or writes them.
\<close>

record filter_btn =
  btn_dac :: string
  btn_active :: bool

record dac_zone =
  zone_dac :: string
  zone_hidden :: bool

text \<open>
  A content unit's box: an \<open>.article-block\<close> or an \<open>.annex-block\<close>, with the array
  parsed from \<open>data-sources\<close>, the class \<open>dac-filtered-out\<close> (which the filter toggles
  on articles), the inline style \<open>display: none\<close> (which it sets on annexes), the class
  \<open>collapsed\<close>, and the children of its \<open>.article-body\<close> or \<open>.annex-body\<close>.
\<close>

datatype block_kind = ArticleBlock | AnnexBlock

record block =
  kind :: block_kind
  sources :: "string list"
  filtered_out :: bool
  display_none :: bool
  collapsed :: bool
  body :: "node list"

text \<open>A \<open>.toc-article\<close> or \<open>.toc-annex\<close> link with its own copy of the sources.\<close>

record toc_entry =
  toc_sources :: "string list"
  toc_hidden :: bool

text \<open>
  The elements that \<open>updateFilters\<close> considers as scroll anchors (line 560): chapter
  headings, and the header of an article block (named by the block's position in
  \<open>blocks\<close>).
\<close>

datatype header = ChapterHeading nat | ArticleHeader nat

text \<open>
  The page: the DOM parts above in document order, the inline \<open>scroll-behavior\<close> of the
  root element, the text of \<open>#search-results-count\<close>, the last \<open>scrollIntoView\<close> request
  (the match it was called on, with its \<open>behavior\<close>), and the module variables of lines
  16 to 21. \<open>searchMatches\<close> holds references to highlight elements; a reference is the
  element's position among the \<open>.search-highlight\<close> elements of the document, in
  document order.
\<close>

record page =
  buttons :: "filter_btn list"
  norway_btn_active :: bool
  zones :: "dac_zone list"
  headers :: "header list"
  blocks :: "block list"
  toc :: "toc_entry list"
  scrollBehavior :: string
  resultsCount :: string
  scrolledIntoView :: "(nat \<times> string) option"
  activeFilters :: "string set"
  norwayFilterActive :: bool
  searchTerm :: string
  searchMatches :: "nat list"
  currentSearchIndex :: int

subsection \<open>The host's layout and scrolling\<close>

text \<open>
  What the code asks of the browser. A viewport gives, for every anchor candidate, the
  document-absolute top of its box (\<open>None\<close> when the element has no box, as under
  \<open>display: none\<close>), the scroll offset \<open>window.pageYOffset\<close>, the largest offset the
  document can be scrolled to, and whether the last scroll was an animated one. Pixel
  positions are exact numbers here; the rounding of the host's floating-point numbers is
  left out.

  \<open>getBoundingClientRect().top\<close> is the box's top relative to the viewport, and 0 for an
  element without a box. \<open>window.scrollTo(0, y)\<close> moves the offset to \<open>y\<close> clamped to
  the range the document allows; the scroll is animated when the \<open>scroll-behavior\<close> in
  force is \<open>smooth\<close>.
\<close>

record viewport =
  page_top :: "header \<Rightarrow> real option"
  pageYOffset :: real
  max_scroll :: real
  animated :: bool

definition rect_top :: "viewport \<Rightarrow> header \<Rightarrow> real" where
  "rect_top v el = (case page_top v el of None \<Rightarrow> 0 | Some y \<Rightarrow> y - pageYOffset v)"

definition scrollTo :: "string \<Rightarrow> real \<Rightarrow> viewport \<Rightarrow> viewport" where
  "scrollTo behavior y v =
     v\<lparr>pageYOffset := max 0 (min (max_scroll v) y), animated := (behavior = ''smooth'')\<rparr>"

subsection \<open>Filter engine\<close>

text \<open>
  The anchor loop of lines 557 to 571. \<open>bestDist\<close> starts at \<open>Infinity\<close>, written
  \<open>None\<close>; a candidate replaces the anchor only when it is strictly closer to the top of
  the viewport.
\<close>

record anchor =
  anchorEl :: "header option"
  anchorPageY :: real
  anchorViewportY :: real
  bestDist :: "real option"

definition noAnchor :: anchor where
  "noAnchor = \<lparr>anchorEl = None, anchorPageY = 0, anchorViewportY = 0, bestDist = None\<rparr>"

fun pickAnchor :: "viewport \<Rightarrow> header list \<Rightarrow> anchor \<Rightarrow> anchor" where
  "pickAnchor v [] a = a"
| "pickAnchor v (el # els) a =
     (let top = rect_top v el; dist = \<bar>top\<bar> in
      if (case bestDist a of None \<Rightarrow> True | Some best \<Rightarrow> dist < best)
      then pickAnchor v els
             \<lparr>anchorEl = Some el, anchorPageY = top + pageYOffset v,
              anchorViewportY = top, bestDist = Some dist\<rparr>
      else pickAnchor v els a)"

text \<open>\<open>sources.some(s => activeFilters.has(s))\<close>.\<close>

definition someActive :: "string set \<Rightarrow> string list \<Rightarrow> bool" where
  "someActive active srcs = list_ex (\<lambda>s. s \<in> active) srcs"

text \<open>
  Lines 550 to 553 and 573 to 596: the active set is read from the buttons,
  \<open>allActive\<close> compares its size with the length of \<open>ALL_DACS\<close>, and the four loops set
  the flags of zones, article blocks, annex blocks and contents entries.
\<close>

definition applyFilters :: "page \<Rightarrow> page" where
  "applyFilters p =
     (let active = set (map btn_dac (filter btn_active (buttons p)));
          allActive = (card active = length ALL_DACS)
      in p\<lparr>activeFilters := active,
            zones := map (\<lambda>z. z\<lparr>zone_hidden := \<not> (allActive \<or> zone_dac z \<in> active)\<rparr>)
                       (zones p),
            blocks := map (\<lambda>b. case kind b of
                  ArticleBlock \<Rightarrow>
                    b\<lparr>filtered_out := \<not> (allActive \<or> someActive active (sources b))\<rparr>
                | AnnexBlock \<Rightarrow>
                    b\<lparr>display_none := \<not> (allActive \<or> someActive active (sources b))\<rparr>)
                (blocks p),
            toc := map (\<lambda>e. e\<lparr>toc_hidden :=
                         \<not> (allActive \<or> someActive active (toc_sources e))\<rparr>) (toc p)\<rparr>)"

text \<open>
  Lines 599 to 612: when an anchor was found, the root's \<open>scroll-behavior\<close> is set to
  \<open>auto\<close>, the same element is measured again, the window is scrolled to its new page
  position less its old viewport position, and the saved \<open>scroll-behavior\<close> is put back.
\<close>

definition restoreAnchor :: "anchor \<Rightarrow> page \<Rightarrow> viewport \<Rightarrow> page \<times> viewport" where
  "restoreAnchor a p v =
     (case anchorEl a of
        None \<Rightarrow> (p, v)
      | Some el \<Rightarrow>
          (let savedBehavior = scrollBehavior p;
               p1 = p\<lparr>scrollBehavior := ''auto''\<rparr>;
               newTop = rect_top v el;
               newPageY = newTop + pageYOffset v;
               v1 = scrollTo (scrollBehavior p1) (newPageY - anchorViewportY a) v
           in (p1\<lparr>scrollBehavior := savedBehavior\<rparr>, v1)))"

text \<open>
  \<open>updateFilters\<close> (lines 549 to 613). The argument \<open>reflow\<close> is the host: the viewport
  it reports once the page has been changed.
\<close>

definition updateFilters ::
  "(page \<Rightarrow> viewport \<Rightarrow> viewport) \<Rightarrow> page \<Rightarrow> viewport \<Rightarrow> page \<times> viewport" where
  "updateFilters reflow p v =
     (let a = pickAnchor v (headers p) noAnchor;
          p1 = applyFilters p
      in restoreAnchor a p1 (reflow p1 v))"

text \<open>
  The buttons as \<open>renderFilters\<close> builds them (lines 74 to 87), and the three click
  handlers of \<open>bindEvents\<close> that change them (lines 442 to 477).
\<close>

definition renderFilters :: "page \<Rightarrow> page" where
  "renderFilters p =
     p\<lparr>buttons := map (\<lambda>dac. \<lparr>btn_dac = dac, btn_active = True\<rparr>) ALL_DACS\<rparr>"

definition clickFilterBtn ::
  "(page \<Rightarrow> viewport \<Rightarrow> viewport) \<Rightarrow> nat \<Rightarrow> page \<Rightarrow> viewport \<Rightarrow> page \<times> viewport" where
  "clickFilterBtn reflow i p v =
     (if i < length (buttons p)
      then updateFilters reflow
             (p\<lparr>buttons := (buttons p)[i := (buttons p ! i)\<lparr>btn_active :=
                   \<not> btn_active (buttons p ! i)\<rparr>]\<rparr>) v
      else (p, v))"

definition clickShowAll ::
  "(page \<Rightarrow> viewport \<Rightarrow> viewport) \<Rightarrow> page \<Rightarrow> viewport \<Rightarrow> page \<times> viewport" where
  "clickShowAll reflow p v =
     updateFilters reflow
       (p\<lparr>norwayFilterActive := False, norway_btn_active := False,
          buttons := map (\<lambda>b. b\<lparr>btn_active := True\<rparr>) (buttons p)\<rparr>) v"

definition clickNorwayRelevant ::
  "(page \<Rightarrow> viewport \<Rightarrow> viewport) \<Rightarrow> page \<Rightarrow> viewport \<Rightarrow> page \<times> viewport" where
  "clickNorwayRelevant reflow p v =
     updateFilters reflow
       (if norwayFilterActive p
        then p\<lparr>norwayFilterActive := False, norway_btn_active := False,
               buttons := map (\<lambda>b. b\<lparr>btn_active := True\<rparr>) (buttons p)\<rparr>
        else p\<lparr>norwayFilterActive := True, norway_btn_active := True,
               buttons := map (\<lambda>b. b\<lparr>btn_active := (btn_dac b \<in> set NORWAY_RELEVANT)\<rparr>)
                            (buttons p)\<rparr>) v"

text \<open>
  A content unit is visible when the flag the filter sets on its kind of box is off.
\<close>

definition block_visible :: "block \<Rightarrow> bool" where
  "block_visible b =
     (case kind b of ArticleBlock \<Rightarrow> \<not> filtered_out b | AnnexBlock \<Rightarrow> \<not> display_none b)"

text \<open>
  Step 4 of the specification's \<open>applyFilter\<close>, kept apart from the code for comparison:
  the recorded anchor if it still has a box, otherwise the nearest anchor before it in
  document order that has one.
\<close>

definition relocate_spec :: "viewport \<Rightarrow> header list \<Rightarrow> header \<Rightarrow> header option" where
  "relocate_spec v hs el =
     (if page_top v el \<noteq> None then Some el
      else (case filter (\<lambda>h. page_top v h \<noteq> None) (rev (takeWhile (\<lambda>h. h \<noteq> el) hs)) of
              [] \<Rightarrow> None
            | h # _ \<Rightarrow> Some h))"

text \<open>
  A small page for trying the filter: the eight buttons with only \<open>DAC2\<close> active, three
  articles with sources \<open>{DAC1}\<close>, \<open>{DAC2}\<close> and \<open>{DAC1, DAC2}\<close>, and an annex tagged
  outside the catalog. \<open>demo_view\<close> is a viewport in which no anchor has a box, and
  \<open>same_view\<close> a host whose layout does not change.
\<close>

definition demo_block :: "block_kind \<Rightarrow> string list \<Rightarrow> block" where
  "demo_block k srcs =
     \<lparr>kind = k, sources = srcs, filtered_out = False, display_none = False,
      collapsed = False, body = []\<rparr>"

definition demo_page :: page where
  "demo_page =
     \<lparr>buttons = map (\<lambda>dac. \<lparr>btn_dac = dac, btn_active = (dac = ''DAC2'')\<rparr>) ALL_DACS,
      norway_btn_active = False,
      zones = [],
      headers = [],
      blocks = [demo_block ArticleBlock [''DAC1''], demo_block ArticleBlock [''DAC2''],
                demo_block ArticleBlock [''DAC1'', ''DAC2''],
                demo_block AnnexBlock [''Corrigendum'']],
      toc = [],
      scrollBehavior = '''',
      resultsCount = '''',
      scrolledIntoView = None,
      activeFilters = {},
      norwayFilterActive = False,
      searchTerm = '''',
      searchMatches = [],
      currentSearchIndex = - 1\<rparr>"

definition demo_view :: viewport where
  "demo_view = \<lparr>page_top = (\<lambda>h. None), pageYOffset = 0, max_scroll = 0, animated = False\<rparr>"

definition same_view :: "page \<Rightarrow> viewport \<Rightarrow> viewport" where
  "same_view p v = v"

text \<open>
  What the anchor loop maintains over the candidates seen so far: no anchor before the
  first candidate; afterwards the anchor is one of them, its recorded distance and
  viewport position are its own, no candidate seen is closer to the top of the viewport,
  and every candidate before it is strictly farther.
\<close>

definition closest_first :: "viewport \<Rightarrow> header list \<Rightarrow> anchor \<Rightarrow> bool" where
  "closest_first v seen a =
     (case anchorEl a of
        None \<Rightarrow> bestDist a = None \<and> seen = []
      | Some el \<Rightarrow>
          bestDist a = Some \<bar>rect_top v el\<bar> \<and> anchorViewportY a = rect_top v el
          \<and> el \<in> set seen
          \<and> (\<forall>c\<in>set seen. \<bar>rect_top v el\<bar> \<le> \<bar>rect_top v c\<bar>)
          \<and> (\<forall>c\<in>set (takeWhile (\<lambda>h. h \<noteq> el) seen). \<bar>rect_top v el\<bar> < \<bar>rect_top v c\<bar>))"

text \<open>
  A page for trying the scroll anchor: a chapter heading, the header of an article
  tagged \<open>DAC7\<close>, and a second chapter heading, with every button active but \<open>DAC7\<close>.
  In \<open>view_low\<close> the second heading is nearest to the top of the viewport, 100 pixels
  below it; in \<open>view_article\<close> the article header is, 10 pixels below it. The other
  viewports are what a host may report once the article is hidden: \<open>view_moved\<close> (the
  second heading has moved up, the document still scrolls), \<open>view_short\<close> (the document
  no longer fills the viewport) and \<open>view_gone\<close> (the article header has no box).
\<close>

definition anchor_page :: page where
  "anchor_page =
     demo_page\<lparr>buttons := map (\<lambda>dac. \<lparr>btn_dac = dac, btn_active = (dac \<noteq> ''DAC7'')\<rparr>) ALL_DACS,
       headers := [ChapterHeading 0, ArticleHeader 0, ChapterHeading 1],
       blocks := [demo_block ArticleBlock [''DAC7'']]\<rparr>"

definition view_of :: "real option \<Rightarrow> real option \<Rightarrow> real option \<Rightarrow> real \<Rightarrow> real \<Rightarrow> viewport" where
  "view_of c0 a0 c1 offset most =
     \<lparr>page_top = (\<lambda>h. if h = ChapterHeading 0 then c0 else if h = ArticleHeader 0 then a0
                       else if h = ChapterHeading 1 then c1 else None),
      pageYOffset = offset, max_scroll = most, animated = False\<rparr>"

definition view_low :: viewport where
  "view_low = view_of (Some 0) (Some 60) (Some 1000) 900 1500"

definition view_moved :: viewport where
  "view_moved = view_of (Some 0) None (Some 500) 450 1000"

definition view_short :: viewport where
  "view_short = view_of (Some 0) None (Some 60) 0 0"

definition view_article :: viewport where
  "view_article = view_of (Some 0) (Some 1000) (Some 5000) 990 6000"

definition view_gone :: viewport where
  "view_gone = view_of (Some 0) None (Some 1060) 990 3000"

text \<open>
  A page on which an article is hidden already: a chapter heading, the header of an
  article tagged \<open>DAC7\<close> that an earlier filter has hidden, the header of an article
  tagged \<open>DAC6\<close>, and a second chapter heading; the button \<open>DAC6\<close> has just been
  switched off as well. In \<open>view_hidden\<close> the first article header has no box and the
  second chapter heading is 70 pixels below the top of the viewport; \<open>view_closed\<close> is
  what a host may report once the second article is hidden too: its header has no box
  and the second heading has moved 100 pixels up the page.
\<close>

definition view_at :: "(header \<times> real) list \<Rightarrow> real \<Rightarrow> real \<Rightarrow> viewport" where
  "view_at tops offset most =
     \<lparr>page_top = map_of tops, pageYOffset = offset, max_scroll = most, animated = False\<rparr>"

definition filtered_page :: page where
  "filtered_page =
     demo_page\<lparr>buttons := map (\<lambda>dac. \<lparr>btn_dac = dac,
                   btn_active = (dac \<noteq> ''DAC6'' \<and> dac \<noteq> ''DAC7'')\<rparr>) ALL_DACS,
       headers := [ChapterHeading 0, ArticleHeader 0, ArticleHeader 1, ChapterHeading 1],
       blocks := [(demo_block ArticleBlock [''DAC7''])\<lparr>filtered_out := True\<rparr>,
                  demo_block ArticleBlock [''DAC6'']]\<rparr>"

definition view_hidden :: viewport where
  "view_hidden =
     view_at [(ChapterHeading 0, 0), (ArticleHeader 1, 100), (ChapterHeading 1, 570)] 500 1000"

definition view_closed :: viewport where
  "view_closed = view_at [(ChapterHeading 0, 0), (ChapterHeading 1, 470)] 500 900"

subsection \<open>Search engine: text, classes and the regular expression\<close>

text \<open>\<open>textContent\<close>: the text of a node and of all its descendants, in document order.\<close>

fun textContent :: "node \<Rightarrow> string" where
  "textContent (Text s) = s"
| "textContent (Elem cls kids) = concat (map textContent kids)"

text \<open>
  The selector \<open>.search-highlight\<close>, and the selector of line 687 that \<open>closest\<close> tests
  on a text node's parent element.
\<close>

definition isHighlight :: "string set \<Rightarrow> bool" where
  "isHighlight cls = (''search-highlight'' \<in> cls)"

fun isHighlightNode :: "node \<Rightarrow> bool" where
  "isHighlightNode (Text s) = False"
| "isHighlightNode (Elem cls kids) = isHighlight cls"

definition isExcluded :: "string set \<Rightarrow> bool" where
  "isExcluded cls =
     (\<exists>c \<in> {''dac-provenance-marker'', ''dac-label'', ''dac-operation'',
             ''title-article-norm'', ''stitle-article-norm''}. c \<in> cls)"

text \<open>\<open>String.prototype.slice\<close> with two indices in range.\<close>

definition slice :: "string \<Rightarrow> nat \<Rightarrow> nat \<Rightarrow> string" where
  "slice s a b = take (b - a) (drop a s)"

text \<open>
  \<open>escapeRegex\<close> (lines 763 to 765) puts a backslash before each of the characters
  \<open>. * + ? ^ $ { } ( ) | [ ] \\<close>. \<open>patternLiteral\<close> is how the regular expression reads
  such a pattern back: a backslash makes the next character stand for itself.
\<close>

definition regexSpecial :: "char \<Rightarrow> bool" where
  "regexSpecial c = (c \<in> set ''.*+?^${}()|[]'' \<or> c = CHR 0x5C)"

fun escapeRegex :: "string \<Rightarrow> string" where
  "escapeRegex [] = []"
| "escapeRegex (c # cs) =
     (if regexSpecial c then CHR 0x5C # c # escapeRegex cs else c # escapeRegex cs)"

fun patternLiteral :: "string \<Rightarrow> string" where
  "patternLiteral [] = []"
| "patternLiteral [c] = [c]"
| "patternLiteral (c # d # cs) =
     (if c = CHR 0x5C then d # patternLiteral cs else c # patternLiteral (d # cs))"

text \<open>
  The flag \<open>i\<close>: two characters match when they are equal after the canonical upper
  casing, which is written here for the letters \<open>a\<close> to \<open>z\<close>; the host's case table
  beyond them is left out.
\<close>

definition toUpperCase :: "char \<Rightarrow> char" where
  "toUpperCase c =
     (let n = (of_char c :: nat) in if 97 \<le> n \<and> n \<le> 122 then char_of (n - 32) else c)"

definition matchAt :: "string \<Rightarrow> string \<Rightarrow> nat \<Rightarrow> bool" where
  "matchAt pat s i =
     (i + length pat \<le> length s
      \<and> map toUpperCase (slice s i (i + length pat)) = map toUpperCase pat)"

text \<open>
  A regular expression object made from an escaped pattern with the flags \<open>gi\<close>: the
  literal it matches, and the property \<open>lastIndex\<close> that the flag \<open>g\<close> makes \<open>exec\<close> and
  \<open>test\<close> read and write.
\<close>

record regex =
  pattern :: string
  lastIndex :: nat

definition newRegExp :: "string \<Rightarrow> regex" where
  "newRegExp src = \<lparr>pattern = patternLiteral src, lastIndex = 0\<rparr>"

text \<open>
  \<open>RegExp.prototype.exec\<close> on a global expression: the search starts at \<open>lastIndex\<close>; a
  match at index \<open>i\<close> sets \<open>lastIndex\<close> to the end of the match and is returned; when
  \<open>lastIndex\<close> is beyond the string or nothing matches from there on, \<open>lastIndex\<close>
  becomes 0 and the answer is \<open>null\<close>. \<open>test\<close> is \<open>exec\<close> compared with \<open>null\<close>, so it
  moves \<open>lastIndex\<close> in the same way.
\<close>

definition regexExec :: "regex \<Rightarrow> string \<Rightarrow> nat option \<times> regex" where
  "regexExec r s =
     (if lastIndex r > length s then (None, r\<lparr>lastIndex := 0\<rparr>)
      else case find (matchAt (pattern r) s) [lastIndex r ..< Suc (length s)] of
             None \<Rightarrow> (None, r\<lparr>lastIndex := 0\<rparr>)
           | Some i \<Rightarrow> (Some i, r\<lparr>lastIndex := i + length (pattern r)\<rparr>))"

definition regexTest :: "regex \<Rightarrow> string \<Rightarrow> bool \<times> regex" where
  "regexTest r s = (case regexExec r s of (m, r') \<Rightarrow> (m \<noteq> None, r'))"

subsection \<open>Search engine: highlighting\<close>

text \<open>The span of lines 710 to 712, around the matched text.\<close>

definition highlightSpan :: "string \<Rightarrow> node" where
  "highlightSpan m = Elem {''search-highlight''} [Text m]"

text \<open>
  The \<open>while\<close> loop of lines 706 to 715 for one text node: each match adds the text
  before it, if any, and its span, and \<open>lastIdx\<close> follows \<open>regex.lastIndex\<close>. With an
  empty pattern the loop would never end, so the loop is a partial function and
  \<open>None\<close> stands for not returning.
\<close>

partial_function (option) execLoop ::
  "regex \<Rightarrow> string \<Rightarrow> nat \<Rightarrow> node list \<Rightarrow> (node list \<times> nat \<times> regex) option" where
  "execLoop r s lastIdx fragments =
     (case regexExec r s of
        (None, r') \<Rightarrow> Some (fragments, lastIdx, r')
      | (Some i, r') \<Rightarrow>
          execLoop r' s (lastIndex r')
            (fragments @ (if i > lastIdx then [Text (slice s lastIdx i)] else [])
               @ [highlightSpan (slice s i (i + length (pattern r)))]))"

declare execLoop.simps [code]

text \<open>
  The body of the \<open>forEach\<close> of lines 699 to 725 for one collected text node: the nodes
  that stand in its place afterwards (the node itself when there are no fragments).
\<close>

definition highlightNode :: "regex \<Rightarrow> string \<Rightarrow> (node list \<times> regex) option" where
  "highlightNode r s =
     (case execLoop (r\<lparr>lastIndex := 0\<rparr>) s 0 [] of
        None \<Rightarrow> None
      | Some (fragments, lastIdx, r') \<Rightarrow>
          Some (if length fragments > 0
                then fragments
                  @ (if lastIdx < length s then [Text (slice s lastIdx (length s))] else [])
                else [Text s], r'))"

text \<open>
  The tree walker's filter (lines 685 to 691). \<open>inExcluded\<close> says whether the parent
  element or one of its ancestors matches the selector of line 687; such a node is
  rejected without a look at the expression.
\<close>

definition acceptNode :: "regex \<Rightarrow> bool \<Rightarrow> string \<Rightarrow> bool \<times> regex" where
  "acceptNode r inExcluded s = (if inExcluded then (False, r) else regexTest r s)"

text \<open>
  The walk of lines 694 to 697: the filter is called on every text node below the body
  in document order, with the one expression object. The result \<open>textNodes\<close> is written
  as one flag per text node, in document order: whether the node was collected.
\<close>

fun walkNode :: "regex \<Rightarrow> bool \<Rightarrow> node \<Rightarrow> bool list \<times> regex"
  and walkNodes :: "regex \<Rightarrow> bool \<Rightarrow> node list \<Rightarrow> bool list \<times> regex" where
  "walkNode r ex (Text s) = (case acceptNode r ex s of (ok, r') \<Rightarrow> ([ok], r'))"
| "walkNode r ex (Elem cls kids) = walkNodes r (ex \<or> isExcluded cls) kids"
| "walkNodes r ex [] = ([], r)"
| "walkNodes r ex (n # ns) =
     (case walkNode r ex n of (a, r1) \<Rightarrow>
        (case walkNodes r1 ex ns of (b, r2) \<Rightarrow> (a @ b, r2)))"

text \<open>
  The \<open>forEach\<close> over \<open>textNodes\<close>: every collected text node is replaced, in place, by
  its fragments. The flags are used up in document order.
\<close>

fun replaceNode ::
    "bool list \<Rightarrow> regex \<Rightarrow> node \<Rightarrow> (node list \<times> bool list \<times> regex) option"
  and replaceNodes ::
    "bool list \<Rightarrow> regex \<Rightarrow> node list \<Rightarrow> (node list \<times> bool list \<times> regex) option" where
  "replaceNode ds r (Text s) =
     (case ds of
        [] \<Rightarrow> Some ([Text s], [], r)
      | d # ds' \<Rightarrow>
          if d then (case highlightNode r s of
                       None \<Rightarrow> None
                     | Some (fragments, r') \<Rightarrow> Some (fragments, ds', r'))
          else Some ([Text s], ds', r))"
| "replaceNode ds r (Elem cls kids) =
     (case replaceNodes ds r kids of
        None \<Rightarrow> None
      | Some (kids', ds', r') \<Rightarrow> Some ([Elem cls kids'], ds', r'))"
| "replaceNodes ds r [] = Some ([], ds, r)"
| "replaceNodes ds r (n # ns) =
     (case replaceNode ds r n of
        None \<Rightarrow> None
      | Some (a, ds1, r1) \<Rightarrow>
          (case replaceNodes ds1 r1 ns of
             None \<Rightarrow> None
           | Some (b, ds2, r2) \<Rightarrow> Some (a @ b, ds2, r2)))"

text \<open>
  \<open>highlightTextNodes\<close> (lines 683 to 726) on the children of a body. The body element
  and its ancestors do not match the selector of line 687, so the walk starts outside
  every excluded region.
\<close>

definition highlightTextNodes :: "node list \<Rightarrow> regex \<Rightarrow> (node list \<times> regex) option" where
  "highlightTextNodes rootNodes r =
     (case walkNodes r False rootNodes of (textNodes, r1) \<Rightarrow>
        (case replaceNodes textNodes r1 rootNodes of
           None \<Rightarrow> None
         | Some (newNodes, _, r2) \<Rightarrow> Some (newNodes, r2)))"

text \<open>The \<open>forEach\<close> of lines 628 to 630 over the bodies, in document order.\<close>

fun highlightBodies :: "regex \<Rightarrow> block list \<Rightarrow> (block list \<times> regex) option" where
  "highlightBodies r [] = Some ([], r)"
| "highlightBodies r (b # bs) =
     (case highlightTextNodes (body b) r of
        None \<Rightarrow> None
      | Some (kids, r1) \<Rightarrow>
          (case highlightBodies r1 bs of
             None \<Rightarrow> None
           | Some (bs', r2) \<Rightarrow> Some (b\<lparr>body := kids\<rparr> # bs', r2)))"

subsection \<open>Search engine: clearing\<close>

text \<open>
  \<open>Node.prototype.normalize\<close>: in the whole subtree, empty text nodes are removed and
  adjacent text nodes are joined.
\<close>

fun mergeText :: "node list \<Rightarrow> node list" where
  "mergeText [] = []"
| "mergeText (Text a # Text b # ns) = mergeText (Text (a @ b) # ns)"
| "mergeText (Text a # ns) = (if a = [] then mergeText ns else Text a # mergeText ns)"
| "mergeText (n # ns) = n # mergeText ns"

fun normalizeNode :: "node \<Rightarrow> node" where
  "normalizeNode (Text s) = Text s"
| "normalizeNode (Elem cls kids) = Elem cls (mergeText (map normalizeNode kids))"

text \<open>
  The loop of lines 651 to 655 over the highlight elements in document order: each is
  replaced by a text node with its \<open>textContent\<close>, and its parent is normalized. In the
  end every highlight element is gone, and the subtree of every element that had a
  highlight child is normalized; \<open>clearNodes\<close> does this for the children of a body,
  \<open>clearNode\<close> below them.
\<close>

fun clearNode :: "node \<Rightarrow> node" where
  "clearNode (Text s) = Text s"
| "clearNode (Elem cls kids) =
     (if isHighlight cls then Text (textContent (Elem cls kids))
      else Elem cls (if list_ex isHighlightNode kids
                     then mergeText (map normalizeNode (map clearNode kids))
                     else map clearNode kids))"

definition clearNodes :: "node list \<Rightarrow> node list" where
  "clearNodes kids =
     (if list_ex isHighlightNode kids then mergeText (map normalizeNode (map clearNode kids))
      else map clearNode kids)"

text \<open>\<open>clearSearch\<close> (lines 649 to 658).\<close>

definition clearSearch :: "page \<Rightarrow> page" where
  "clearSearch p =
     p\<lparr>blocks := map (\<lambda>b. b\<lparr>body := clearNodes (body b)\<rparr>) (blocks p),
       searchMatches := [],
       currentSearchIndex := - 1\<rparr>"

subsection \<open>Search engine: matches and navigation\<close>

text \<open>
  \<open>querySelectorAll('.search-highlight')\<close>: the class lists of the highlight elements,
  in document order.
\<close>

fun highlightsOf :: "node \<Rightarrow> string set list" where
  "highlightsOf (Text s) = []"
| "highlightsOf (Elem cls kids) =
     (if isHighlight cls then [cls] else []) @ concat (map highlightsOf kids)"

definition bodyHighlights :: "node list \<Rightarrow> string set list" where
  "bodyHighlights kids = concat (map highlightsOf kids)"

definition pageHighlights :: "block list \<Rightarrow> string set list" where
  "pageHighlights bs = concat (map (\<lambda>b. bodyHighlights (body b)) bs)"

text \<open>
  Following a reference: \<open>onHighlight f k\<close> changes the class list of the \<open>k\<close>-th
  highlight element of a tree, and \<open>onMatchBlock g k\<close> changes the block that holds the
  \<open>k\<close>-th highlight element of the page (what \<open>closest('.article-block, .annex-block')\<close>
  finds), telling \<open>g\<close> the element's position within that block.
\<close>

fun onHighlight :: "(string set \<Rightarrow> string set) \<Rightarrow> nat \<Rightarrow> node \<Rightarrow> node"
  and onHighlights :: "(string set \<Rightarrow> string set) \<Rightarrow> nat \<Rightarrow> node list \<Rightarrow> node list" where
  "onHighlight f k (Text s) = Text s"
| "onHighlight f k (Elem cls kids) =
     (if isHighlight cls
      then (if k = 0 then Elem (f cls) kids else Elem cls (onHighlights f (k - 1) kids))
      else Elem cls (onHighlights f k kids))"
| "onHighlights f k [] = []"
| "onHighlights f k (n # ns) =
     (if k < length (highlightsOf n) then onHighlight f k n # ns
      else n # onHighlights f (k - length (highlightsOf n)) ns)"

fun onMatchBlock :: "(block \<Rightarrow> nat \<Rightarrow> block) \<Rightarrow> nat \<Rightarrow> block list \<Rightarrow> block list" where
  "onMatchBlock g k [] = []"
| "onMatchBlock g k (b # bs) =
     (if k < length (bodyHighlights (body b)) then g b k # bs
      else b # onMatchBlock g (k - length (bodyHighlights (body b))) bs)"

definition addCurrent :: "nat \<Rightarrow> block list \<Rightarrow> block list" where
  "addCurrent k bs =
     onMatchBlock (\<lambda>b j. b\<lparr>body := onHighlights (insert ''current'') j (body b)\<rparr>) k bs"

definition removeCurrent :: "nat \<Rightarrow> block list \<Rightarrow> block list" where
  "removeCurrent k bs =
     onMatchBlock (\<lambda>b j. b\<lparr>body := onHighlights (\<lambda>cls. cls - {''current''}) j (body b)\<rparr>) k bs"

definition expandBlock :: "nat \<Rightarrow> block list \<Rightarrow> block list" where
  "expandBlock k bs = onMatchBlock (\<lambda>b j. b\<lparr>collapsed := False\<rparr>) k bs"

text \<open>A number in a template string: its decimal digits.\<close>

fun digitsOf :: "nat \<Rightarrow> string" where
  "digitsOf n =
     (if n < 10 then [char_of (48 + n)] else digitsOf (n div 10) @ [char_of (48 + n mod 10)])"

definition numberToString :: "int \<Rightarrow> string" where
  "numberToString i = (if i < 0 then CHR ''-'' # digitsOf (nat (- i)) else digitsOf (nat i))"

text \<open>
  \<open>performSearch\<close> (lines 616 to 647). A query shorter than two characters returns at
  line 621, before any expression is built.
\<close>

definition performSearch :: "string \<Rightarrow> page \<Rightarrow> page option" where
  "performSearch q p =
     (let p1 = (clearSearch p)\<lparr>searchTerm := q\<rparr> in
      if length q < 2 then Some (p1\<lparr>resultsCount := ''''\<rparr>)
      else
        (case highlightBodies (newRegExp (escapeRegex q)) (blocks (p1\<lparr>searchMatches := []\<rparr>)) of
           None \<Rightarrow> None
         | Some (bs, r) \<Rightarrow>
             (let count = length (pageHighlights bs);
                  p2 = p1\<lparr>blocks := bs, searchMatches := [0 ..< count],
                          resultsCount :=
                            (if count > 0
                             then numberToString (int count) @ '' match''
                                    @ (if count \<noteq> 1 then ''es'' else '''')
                                    @ '' found (Enter to navigate)''
                             else ''No matches'')\<rparr>
              in Some (if count > 0
                       then p2\<lparr>currentSearchIndex := 0,
                               blocks := expandBlock (searchMatches p2 ! 0)
                                           (addCurrent (searchMatches p2 ! 0) (blocks p2)),
                               scrolledIntoView := Some (searchMatches p2 ! 0, ''smooth'')\<rparr>
                       else p2))))"

text \<open>\<open>navigateSearch\<close> (lines 660 to 681).\<close>

definition navigateSearch :: "int \<Rightarrow> page \<Rightarrow> page" where
  "navigateSearch direction p =
     (if length (searchMatches p) = 0 then p
      else
        (let n = int (length (searchMatches p));
             i0 = currentSearchIndex p;
             bs0 = (if i0 \<ge> 0 \<and> i0 < n
                    then removeCurrent (searchMatches p ! nat i0) (blocks p) else blocks p);
             i1 = i0 + direction;
             i2 = (if i1 \<ge> n then 0 else i1);
             i3 = (if i2 < 0 then n - 1 else i2);
             m = searchMatches p ! nat i3
         in p\<lparr>currentSearchIndex := i3,
               blocks := expandBlock m (addCurrent m bs0),
               scrolledIntoView := Some (m, ''smooth''),
               resultsCount := numberToString (i3 + 1) @ '' / '' @ numberToString n
                                 @ '' matches''\<rparr>))"

text \<open>
  A page for trying the search: one article whose body is the paragraph
  \<open><p><i>tax</i> tax rate</p>\<close>, and one annex whose body is the specification's example
  sentence in a paragraph after a provenance marker.
\<close>

definition search_page :: page where
  "search_page =
     demo_page\<lparr>blocks :=
       [(demo_block ArticleBlock [''DAC1''])
          \<lparr>body := [Elem {} [Elem {} [Text ''tax''], Text '' tax rate'']]\<rparr>,
        (demo_block AnnexBlock [''DAC2''])
          \<lparr>collapsed := True,
           body := [Elem {''dac-provenance-marker''} [Text ''rate M1''],
                    Elem {} [Text ''the rate shall be 10% the rate'']]\<rparr>]\<rparr>"

text \<open>
  Two notions for the proofs. A fragment is what the loop of lines 706 to 720 puts in the
  place of a text node: a text node, or a span of class \<open>search-highlight\<close> around one
  text node. A body is clean when it is as the HTML parser and \<open>clearSearch\<close> leave it:
  no highlight element, no empty text node, no two text nodes side by side.
\<close>

fun isFragment :: "node \<Rightarrow> bool" where
  "isFragment (Text t) = True"
| "isFragment (Elem cls kids) =
     (cls = {''search-highlight''} \<and> (case kids of [Text m] \<Rightarrow> True | _ \<Rightarrow> False))"

fun isText :: "node \<Rightarrow> bool" where
  "isText (Text t) = True"
| "isText (Elem cls kids) = False"

fun startsWithText :: "node list \<Rightarrow> bool" where
  "startsWithText [] = False"
| "startsWithText (n # ns) = isText n"

fun noAdjacentText :: "node list \<Rightarrow> bool" where
  "noAdjacentText [] = True"
| "noAdjacentText (n # ns) = ((isText n \<longrightarrow> \<not> startsWithText ns) \<and> noAdjacentText ns)"

fun cleanNode :: "node \<Rightarrow> bool" where
  "cleanNode (Text s) = (s \<noteq> [])"
| "cleanNode (Elem cls kids) =
     (\<not> isHighlight cls \<and> list_all cleanNode kids \<and> noAdjacentText kids)"

definition cleanBody :: "node list \<Rightarrow> bool" where
  "cleanBody kids = (list_all cleanNode kids \<and> noAdjacentText kids)"

text \<open>
  A page is tidy when clearing the search leaves every body clean. A page whose bodies
  are clean is tidy, and so is every page the search engine makes of it.
\<close>

definition tidy :: "page \<Rightarrow> bool" where
  "tidy p = list_all (\<lambda>b. cleanBody (clearNodes (body b))) (blocks p)"

text \<open>
  What the \<open>forEach\<close> of lines 699 to 725 can make of a tree, whichever text nodes were
  collected: a text node stays, or gives way to fragments that spell its text and hold
  a span; an element keeps its classes, and its children are treated in the same way.
\<close>

inductive splitNode :: "node \<Rightarrow> node list \<Rightarrow> bool"
  and splitNodes :: "node list \<Rightarrow> node list \<Rightarrow> bool" where
  keep: "splitNode (Text s) [Text s]"
| split: "list_all isFragment frs \<Longrightarrow> concat (map textContent frs) = s
     \<Longrightarrow> list_ex isHighlightNode frs \<Longrightarrow> splitNode (Text s) frs"
| elem: "splitNodes kids kids' \<Longrightarrow> splitNode (Elem cls kids) [Elem cls kids']"
| nil: "splitNodes [] []"
| cons: "splitNode n a \<Longrightarrow> splitNodes ns b \<Longrightarrow> splitNodes (n # ns) (a @ b)"

text \<open>The text of a content unit's body, as \<open>textContent\<close> gives it.\<close>

definition bodyText :: "block \<Rightarrow> string" where
  "bodyText b = concat (map textContent (body b))"

text \<open>
  The invariant of claim C10: the current index is \<open>-1\<close> exactly when there are no
  matches, otherwise it is a position of \<open>searchMatches\<close>; every match is a highlight
  element of the page, and it carries the class \<open>current\<close> exactly when it is the match
  at the current index.
\<close>

definition search_inv :: "page \<Rightarrow> bool" where
  "search_inv p =
     ((currentSearchIndex p = - 1 \<longleftrightarrow> searchMatches p = [])
      \<and> (searchMatches p \<noteq> [] \<longrightarrow>
            0 \<le> currentSearchIndex p \<and> currentSearchIndex p < int (length (searchMatches p)))
      \<and> (\<forall>k < length (searchMatches p).
            searchMatches p ! k < length (pageHighlights (blocks p))
            \<and> (''current'' \<in> pageHighlights (blocks p) ! (searchMatches p ! k)
                 \<longleftrightarrow> int k = currentSearchIndex p)))"

text \<open>
  The handlers that fold and unfold content units: a click on the header of a unit
  (lines 368 to 370 and 424), and the buttons \<open>Expand all\<close> and \<open>Collapse all\<close> (lines
  480 to 486).
\<close>

definition clickHeader :: "nat \<Rightarrow> page \<Rightarrow> page" where
  "clickHeader i p =
     (if i < length (blocks p)
      then p\<lparr>blocks := (blocks p)[i := (blocks p ! i)\<lparr>collapsed :=
                \<not> collapsed (blocks p ! i)\<rparr>]\<rparr>
      else p)"

definition clickExpandAll :: "page \<Rightarrow> page" where
  "clickExpandAll p = p\<lparr>blocks := map (\<lambda>b. b\<lparr>collapsed := False\<rparr>) (blocks p)\<rparr>"

definition clickCollapseAll :: "page \<Rightarrow> page" where
  "clickCollapseAll p = p\<lparr>blocks := map (\<lambda>b. b\<lparr>collapsed := True\<rparr>) (blocks p)\<rparr>"

text \<open>
  The pages the application can be in: it starts with the module variables of lines 19
  and 20 (no matches, index \<open>-1\<close>), and moves by \<open>performSearch\<close>, \<open>clearSearch\<close>,
  \<open>navigateSearch\<close> (called with 1 or \<open>-1\<close>, lines 529 and 531), \<open>updateFilters\<close> and
  the click handlers.
\<close>

inductive reachable :: "page \<Rightarrow> bool" where
  start: "searchMatches p = [] \<Longrightarrow> currentSearchIndex p = - 1 \<Longrightarrow> reachable p"
| search: "reachable p \<Longrightarrow> performSearch q p = Some p' \<Longrightarrow> reachable p'"
| clear: "reachable p \<Longrightarrow> reachable (clearSearch p)"
| navigate: "reachable p \<Longrightarrow> d = 1 \<or> d = - 1 \<Longrightarrow> reachable (navigateSearch d p)"
| filter: "reachable p \<Longrightarrow> reachable (fst (updateFilters reflow p v))"
| toggle: "reachable p \<Longrightarrow> reachable (fst (clickFilterBtn reflow i p v))"
| showAll: "reachable p \<Longrightarrow> reachable (fst (clickShowAll reflow p v))"
| norway: "reachable p \<Longrightarrow> reachable (fst (clickNorwayRelevant reflow p v))"
| header: "reachable p \<Longrightarrow> reachable (clickHeader i p)"
| expandAll: "reachable p \<Longrightarrow> reachable (clickExpandAll p)"
| collapseAll: "reachable p \<Longrightarrow> reachable (clickCollapseAll p)"

text \<open>
  The form in which the proofs carry the invariant: either there are no matches, or the
  matches are all the highlight elements of the page, and the bodies are those of a page
  \<open>bs\<close> without any \<open>current\<close> mark, marked at the current index.
\<close>

definition marked_page :: "page \<Rightarrow> block list \<Rightarrow> bool" where
  "marked_page p bs =
     (searchMatches p = [0 ..< length (pageHighlights bs)]
      \<and> 0 \<le> currentSearchIndex p
      \<and> currentSearchIndex p < int (length (pageHighlights bs))
      \<and> (\<forall>j < length (pageHighlights bs). ''current'' \<notin> pageHighlights bs ! j)
      \<and> map body (blocks p) = map body (addCurrent (nat (currentSearchIndex p)) bs))"

definition search_ok :: "page \<Rightarrow> bool" where
  "search_ok p =
     ((searchMatches p = [] \<and> currentSearchIndex p = - 1) \<or> (\<exists>bs. marked_page p bs))"

text \<open>The index after \<open>navigateSearch\<close>: lines 667 to 669.\<close>

definition wrapIndex :: "int \<Rightarrow> int \<Rightarrow> int \<Rightarrow> int" where
  "wrapIndex n i direction =
     (let i1 = i + direction;
          i2 = (if i1 \<ge> n then 0 else i1)
      in if i2 < 0 then n - 1 else i2)"

subsection \<open>Facts about the resolver\<close>

lemma indexOf_range:
  "indexOf xs x = - 1 \<or> (0 \<le> indexOf xs x \<and> indexOf xs x < int (length xs))"
  by (induction xs) (auto simp: Let_def)

lemma indexOf_absent: "indexOf xs x = - 1 \<longleftrightarrow> x \<notin> set xs"
proof (induction xs)
  case Nil
  show ?case by simp
next
  case (Cons y ys)
  have "indexOf ys x + 1 \<noteq> - 1"
    using indexOf_range [of ys x] by auto
  with Cons show ?case by (auto simp: Let_def)
qed

lemma indexOf_nth: "x \<in> set xs \<Longrightarrow> xs ! nat (indexOf xs x) = x"
proof (induction xs)
  case Nil
  then show ?case by simp
next
  case (Cons y ys)
  show ?case
  proof (cases "y = x")
    case True
    then show ?thesis by simp
  next
    case False
    with Cons.prems have in_ys: "x \<in> set ys" by simp
    then have ne: "indexOf ys x \<noteq> - 1" by (simp add: indexOf_absent)
    with indexOf_range [of ys x] have nonneg: "0 \<le> indexOf ys x" by auto
    then have "nat (indexOf ys x + 1) = Suc (nat (indexOf ys x))" by simp
    with False ne Cons.IH [OF in_ys] show ?thesis by (simp add: Let_def)
  qed
qed

lemma indexOf_inj:
  assumes x: "x \<in> set xs" and eq: "indexOf xs x = indexOf xs y"
  shows "x = y"
proof -
  from x have "indexOf xs x \<noteq> - 1" by (simp add: indexOf_absent)
  with eq have "y \<in> set xs" by (simp add: indexOf_absent)
  then have b: "xs ! nat (indexOf xs y) = y" by (rule indexOf_nth)
  from x have a: "xs ! nat (indexOf xs x) = x" by (rule indexOf_nth)
  show "x = y" by (metis a b eq)
qed

lemma dacRank_catalog:
  "t \<in> set DAC_ORDER \<Longrightarrow> dacRank t = indexOf DAC_ORDER t \<and> dacRank t < 8"
  using indexOf_range [of DAC_ORDER t] indexOf_absent [of DAC_ORDER t]
  by (auto simp: dacRank_def Let_def) (simp add: DAC_ORDER_def)

lemma dacRank_unknown: "t \<notin> set DAC_ORDER \<Longrightarrow> dacRank t = 999"
  by (simp add: dacRank_def indexOf_absent)

lemma dacRank_inj:
  assumes "a \<in> set DAC_ORDER" "b \<in> set DAC_ORDER" "dacRank a = dacRank b"
  shows "a = b"
  using assms dacRank_catalog [of a] dacRank_catalog [of b] indexOf_inj [of a DAC_ORDER b]
  by simp

text \<open>The comparator sort is the library's stable sort by key \<open>dacRank\<close>.\<close>

lemma sortInsert_key: "sortInsert (\<lambda>a b. f a - f b) x ys = insort_key f x ys"
  by (induction ys) auto

lemma arraySort_key: "arraySort (\<lambda>a b. f a - f b) xs = sort_key f xs"
  by (induction xs) (simp_all add: arraySort_def sortInsert_key)

lemma arraySort_compareDac: "arraySort compareDac xs = sort_key dacRank xs"
  using arraySort_key [of dacRank xs] by (simp add: compareDac_def [abs_def])

lemma hd_sort_key_least:
  fixes f :: "'a \<Rightarrow> int"
  assumes "xs \<noteq> []"
  shows "hd (sort_key f xs) \<in> set xs \<and> (\<forall>y\<in>set xs. f (hd (sort_key f xs)) \<le> f y)"
proof -
  have "sort_key f xs \<noteq> []"
    using assms by (metis length_sort list.size(3) length_0_conv)
  then obtain z zs where zs: "sort_key f xs = z # zs"
    by (cases "sort_key f xs") auto
  have "sorted (map f (sort_key f xs))" by (rule sorted_sort_key)
  with zs have "\<forall>y\<in>set (z # zs). f z \<le> f y" by auto
  moreover have "set (z # zs) = set xs" using zs by (metis set_sort)
  ultimately show ?thesis using zs by auto
qed

lemma hd_sort_key_first:
  fixes f :: "'a \<Rightarrow> int"
  assumes le: "\<forall>y\<in>set xs. f x \<le> f y"
  shows "hd (sort_key f (x # xs)) = x"
proof -
  have "sort_key f (x # xs) = insort_key f x (sort_key f xs)" by simp
  also have "\<dots> = x # sort_key f xs"
  proof (cases "sort_key f xs")
    case Nil
    then show ?thesis by simp
  next
    case (Cons z zs)
    then have "z \<in> set xs" by (metis list.set_intros(1) set_sort)
    with le Cons show ?thesis by simp
  qed
  finally show ?thesis by simp
qed

lemma lowestDac_least:
  assumes "tags \<noteq> []"
  shows "lowestDac tags \<in> set tags
    \<and> (\<forall>t\<in>set tags. dacRank (lowestDac tags) \<le> dacRank t)"
  using assms hd_sort_key_least [of tags dacRank]
  by (simp add: lowestDac_def arraySort_compareDac)

lemma lowestDac_catalog:
  assumes "\<exists>t\<in>set tags. t \<in> set DAC_ORDER"
  shows "lowestDac tags \<in> set tags \<and> lowestDac tags \<in> set DAC_ORDER
    \<and> (\<forall>t\<in>set tags. dacRank (lowestDac tags) \<le> dacRank t)"
proof -
  from assms obtain c where c: "c \<in> set tags" "c \<in> set DAC_ORDER" by blast
  then have ne: "tags \<noteq> []" by auto
  note least = lowestDac_least [OF ne]
  from least c(1) have "dacRank (lowestDac tags) \<le> dacRank c" by blast
  with dacRank_catalog [OF c(2)] have "dacRank (lowestDac tags) \<noteq> 999" by simp
  then have "lowestDac tags \<in> set DAC_ORDER"
    using dacRank_unknown [of "lowestDac tags"] by blast
  with least show ?thesis by blast
qed

text \<open>
  With no catalog tag in the array every comparison is a tie, and the stable sort leaves
  the first element of the input in front.
\<close>

lemma lowestDac_unknown_first:
  assumes "\<forall>t\<in>set (x # xs). t \<notin> set DAC_ORDER"
  shows "lowestDac (x # xs) = x"
proof -
  from assms have "\<forall>y\<in>set xs. dacRank x \<le> dacRank y" by (simp add: dacRank_unknown)
  then have "hd (sort_key dacRank (x # xs)) = x" by (rule hd_sort_key_first)
  then show ?thesis by (simp add: lowestDac_def arraySort_compareDac)
qed

text \<open>
  Claim C2, as amended. For every provenance array that holds at least one catalog tag,
  \<open>lowestDac\<close> returns a tag of the array that is in the catalog, no catalog tag of the
  array stands earlier in \<open>DAC_ORDER\<close> (so a tag outside the catalog is never returned),
  and every permutation of the array gives the same result.
\<close>

theorem lowestDac_catalog_first:
  assumes "\<exists>t\<in>set tags. t \<in> set DAC_ORDER"
  shows "lowestDac tags \<in> set tags \<inter> set DAC_ORDER
    \<and> (\<forall>t\<in>set tags. t \<in> set DAC_ORDER \<longrightarrow>
          indexOf DAC_ORDER (lowestDac tags) \<le> indexOf DAC_ORDER t)
    \<and> (\<forall>ys. mset ys = mset tags \<longrightarrow> lowestDac ys = lowestDac tags)"
proof -
  note l = lowestDac_catalog [OF assms]
  have in_cat: "lowestDac tags \<in> set tags \<inter> set DAC_ORDER" using l by simp
  have pos: "\<forall>t\<in>set tags. t \<in> set DAC_ORDER \<longrightarrow>
      indexOf DAC_ORDER (lowestDac tags) \<le> indexOf DAC_ORDER t"
  proof (intro ballI impI)
    fix t assume t: "t \<in> set tags" "t \<in> set DAC_ORDER"
    from l t(1) have "dacRank (lowestDac tags) \<le> dacRank t" by blast
    with dacRank_catalog [OF t(2)] dacRank_catalog [of "lowestDac tags"] l
    show "indexOf DAC_ORDER (lowestDac tags) \<le> indexOf DAC_ORDER t" by simp
  qed
  have perm: "\<forall>ys. mset ys = mset tags \<longrightarrow> lowestDac ys = lowestDac tags"
  proof (intro allI impI)
    fix ys assume "mset ys = mset tags"
    then have s: "set ys = set tags" by (rule mset_eq_setD)
    with assms have "\<exists>t\<in>set ys. t \<in> set DAC_ORDER" by simp
    note r = lowestDac_catalog [OF this]
    from r l s have "dacRank (lowestDac ys) \<le> dacRank (lowestDac tags)"
      and "dacRank (lowestDac tags) \<le> dacRank (lowestDac ys)" by auto
    then have "dacRank (lowestDac ys) = dacRank (lowestDac tags)" by simp
    with r l show "lowestDac ys = lowestDac tags" by (blast intro: dacRank_inj)
  qed
  from in_cat pos perm show ?thesis by blast
qed

text \<open>
  The theorem at the array \<open>[DAC7, Corrigendum, COVID]\<close>: the result is \<open>COVID\<close>, also
  for the array rotated.
\<close>

theorem lowestDac_catalog_first_witness:
  "(\<exists>t\<in>set [''DAC7'', ''Corrigendum'', ''COVID'']. t \<in> set DAC_ORDER)
   \<and> lowestDac [''DAC7'', ''Corrigendum'', ''COVID''] = ''COVID''
   \<and> lowestDac [''COVID'', ''DAC7'', ''Corrigendum'']
       = lowestDac [''DAC7'', ''Corrigendum'', ''COVID'']"
proof -
  have h: "\<exists>t\<in>set [''DAC7'', ''Corrigendum'', ''COVID'']. t \<in> set DAC_ORDER"
    by (simp add: DAC_ORDER_def)
  have v: "lowestDac [''DAC7'', ''Corrigendum'', ''COVID''] = ''COVID''"
    by (simp add: lowestDac_def arraySort_def compareDac_def dacRank_def DAC_ORDER_def)
  have p: "mset [''COVID'', ''DAC7'', ''Corrigendum'']
      = mset [''DAC7'', ''Corrigendum'', ''COVID'']"
    by (simp add: add.commute)
  from lowestDac_catalog_first [OF h] p
  have "lowestDac [''COVID'', ''DAC7'', ''Corrigendum'']
      = lowestDac [''DAC7'', ''Corrigendum'', ''COVID'']"
    by blast
  with h v show ?thesis by blast
qed

text \<open>
  Claim C2 as stated fails for an array without a catalog tag: two tags outside the
  catalog tie at rank 999, and the stable sort returns whichever came first, so the
  result changes with the order of the input.
\<close>

theorem lowestDac_permutation_counterexample:
  "mset [''Erratum'', ''Corrigendum''] = mset [''Corrigendum'', ''Erratum'']
   \<and> lowestDac [''Corrigendum'', ''Erratum''] = ''Corrigendum''
   \<and> lowestDac [''Erratum'', ''Corrigendum''] = ''Erratum''
   \<and> lowestDac [''Erratum'', ''Corrigendum''] \<noteq> lowestDac [''Corrigendum'', ''Erratum'']"
  by (simp add: lowestDac_def arraySort_def compareDac_def dacRank_def DAC_ORDER_def
      add.commute)

text \<open>
  Claim C5, as amended. On an empty provenance array \<open>lowestDac\<close> returns the tag
  \<open>DAC1\<close>; it raises nothing.
\<close>

theorem lowestDac_empty_default: "lowestDac [] = ''DAC1''"
  by (simp add: lowestDac_def)

text \<open>
  Claim C5 as stated fails: where the specification's resolver signals
  \<open>DataIntegrityError\<close>, the code's result is an ordinary tag.
\<close>

theorem lowestDac_empty_counterexample:
  "primary_spec [] = Inl DataIntegrityError \<and> lowestDac [] = ''DAC1''
   \<and> primary_spec [] \<noteq> Inr (lowestDac [])"
  by (simp add: primary_spec_def lowestDac_def)

subsection \<open>Facts about the filter engine\<close>

lemma card_active_all:
  assumes "map btn_dac bs = ALL_DACS"
  shows "card (set (map btn_dac (filter btn_active bs))) = length ALL_DACS
     \<longleftrightarrow> set ALL_DACS \<subseteq> set (map btn_dac (filter btn_active bs))"
proof -
  let ?A = "set (map btn_dac (filter btn_active bs))"
  have d: "distinct ALL_DACS" by (simp add: ALL_DACS_def)
  have "?A \<subseteq> set (map btn_dac bs)" by auto
  then have sub: "?A \<subseteq> set ALL_DACS" by (simp only: assms)
  have c: "card (set ALL_DACS) = length ALL_DACS" using d by (rule distinct_card)
  show ?thesis
  proof
    assume "card ?A = length ALL_DACS"
    with c have "card ?A = card (set ALL_DACS)" by simp
    with sub have "?A = set ALL_DACS" by (simp add: card_subset_eq)
    then show "set ALL_DACS \<subseteq> ?A" by simp
  next
    assume "set ALL_DACS \<subseteq> ?A"
    with sub have "?A = set ALL_DACS" by blast
    with c show "card ?A = length ALL_DACS" by simp
  qed
qed

lemma someActive_inter: "someActive active srcs \<longleftrightarrow> set srcs \<inter> active \<noteq> {}"
  by (auto simp: someActive_def list_ex_iff)

lemma active_set_eq:
  "set (map btn_dac (filter btn_active bs)) = {btn_dac b |b. b \<in> set bs \<and> btn_active b}"
  by auto

lemma restoreAnchor_page:
  "blocks (fst (restoreAnchor a p v)) = blocks p
   \<and> activeFilters (fst (restoreAnchor a p v)) = activeFilters p
   \<and> buttons (fst (restoreAnchor a p v)) = buttons p
   \<and> scrollBehavior (fst (restoreAnchor a p v)) = scrollBehavior p"
  by (simp add: restoreAnchor_def Let_def split: option.split)

lemma updateFilters_page:
  "blocks (fst (updateFilters reflow p v)) = blocks (applyFilters p)
   \<and> activeFilters (fst (updateFilters reflow p v)) = activeFilters (applyFilters p)
   \<and> buttons (fst (updateFilters reflow p v)) = buttons p
   \<and> scrollBehavior (fst (updateFilters reflow p v)) = scrollBehavior p"
  by (simp add: updateFilters_def Let_def restoreAnchor_page applyFilters_def)

lemma applyFilters_block:
  assumes "i < length (blocks p)"
  shows "kind (blocks (applyFilters p) ! i) = kind (blocks p ! i)
    \<and> sources (blocks (applyFilters p) ! i) = sources (blocks p ! i)
    \<and> body (blocks (applyFilters p) ! i) = body (blocks p ! i)
    \<and> (block_visible (blocks (applyFilters p) ! i) \<longleftrightarrow>
         card (activeFilters (applyFilters p)) = length ALL_DACS
         \<or> someActive (activeFilters (applyFilters p)) (sources (blocks p ! i)))"
  using assms
  by (cases "kind (blocks p ! i)") (simp_all add: applyFilters_def Let_def block_visible_def)

text \<open>
  Claim C1. On a page whose filter buttons are those of \<open>renderFilters\<close> (one per tag of
  \<open>ALL_DACS\<close>), after \<open>updateFilters\<close> the active set is the set of tags of the active
  buttons, and a content unit (article or annex) is visible if and only if its sources
  meet the active set or every tag of \<open>ALL_DACS\<close> is active; in the latter case every
  unit is visible, whatever its sources.
\<close>

theorem updateFilters_visibility:
  assumes "map btn_dac (buttons p) = ALL_DACS"
  shows "activeFilters (fst (updateFilters reflow p v))
           = {btn_dac b |b. b \<in> set (buttons p) \<and> btn_active b}
    \<and> length (blocks (fst (updateFilters reflow p v))) = length (blocks p)
    \<and> (\<forall>i < length (blocks p).
          sources (blocks (fst (updateFilters reflow p v)) ! i) = sources (blocks p ! i)
          \<and> (block_visible (blocks (fst (updateFilters reflow p v)) ! i) \<longleftrightarrow>
               set (sources (blocks p ! i)) \<inter> activeFilters (fst (updateFilters reflow p v)) \<noteq> {}
               \<or> set ALL_DACS \<subseteq> activeFilters (fst (updateFilters reflow p v))))
    \<and> (set ALL_DACS \<subseteq> activeFilters (fst (updateFilters reflow p v)) \<longrightarrow>
          (\<forall>b \<in> set (blocks (fst (updateFilters reflow p v))). block_visible b))"
proof -
  let ?p = "fst (updateFilters reflow p v)"
  let ?A = "set (map btn_dac (filter btn_active (buttons p)))"
  have act: "activeFilters ?p = ?A"
    by (simp add: updateFilters_page) (simp add: applyFilters_def Let_def)
  have act': "activeFilters (applyFilters p) = ?A"
    by (simp add: applyFilters_def Let_def)
  have all: "card ?A = length ALL_DACS \<longleftrightarrow> set ALL_DACS \<subseteq> ?A"
    using assms by (rule card_active_all)
  have len: "length (blocks ?p) = length (blocks p)"
    by (simp add: updateFilters_page) (simp add: applyFilters_def Let_def)
  have each: "\<forall>i < length (blocks p).
      sources (blocks ?p ! i) = sources (blocks p ! i)
      \<and> (block_visible (blocks ?p ! i) \<longleftrightarrow>
           set (sources (blocks p ! i)) \<inter> activeFilters ?p \<noteq> {}
           \<or> set ALL_DACS \<subseteq> activeFilters ?p)"
  proof (intro allI impI)
    fix i assume i: "i < length (blocks p)"
    note blk = applyFilters_block [OF i]
    have b: "blocks ?p = blocks (applyFilters p)" by (simp add: updateFilters_page)
    have src: "sources (blocks ?p ! i) = sources (blocks p ! i)"
      using blk b by simp
    have "block_visible (blocks ?p ! i) \<longleftrightarrow>
        card ?A = length ALL_DACS \<or> someActive ?A (sources (blocks p ! i))"
      using blk b act' by simp
    also have "\<dots> \<longleftrightarrow> set (sources (blocks p ! i)) \<inter> ?A \<noteq> {} \<or> set ALL_DACS \<subseteq> ?A"
      unfolding all someActive_inter by blast
    finally have "block_visible (blocks ?p ! i) \<longleftrightarrow>
        set (sources (blocks p ! i)) \<inter> activeFilters ?p \<noteq> {}
        \<or> set ALL_DACS \<subseteq> activeFilters ?p"
      unfolding act .
    with src show "sources (blocks ?p ! i) = sources (blocks p ! i)
      \<and> (block_visible (blocks ?p ! i) \<longleftrightarrow>
           set (sources (blocks p ! i)) \<inter> activeFilters ?p \<noteq> {}
           \<or> set ALL_DACS \<subseteq> activeFilters ?p)"
      by (rule conjI)
  qed
  have full: "set ALL_DACS \<subseteq> activeFilters ?p \<longrightarrow> (\<forall>b \<in> set (blocks ?p). block_visible b)"
  proof (intro impI ballI)
    fix b assume sub: "set ALL_DACS \<subseteq> activeFilters ?p" and b: "b \<in> set (blocks ?p)"
    from b obtain i where i: "i < length (blocks ?p)" "blocks ?p ! i = b"
      by (auto simp: in_set_conv_nth)
    with len each sub show "block_visible b" by auto
  qed
  have act2: "activeFilters ?p = {btn_dac b |b. b \<in> set (buttons p) \<and> btn_active b}"
    unfolding act by (rule active_set_eq)
  from act2 len each full show ?thesis by (intro conjI)
qed

text \<open>
  The theorem on \<open>demo_page\<close>: with only \<open>DAC2\<close> active the first article is hidden, the
  second and third are visible, and the annex tagged outside the catalog is hidden.
\<close>

theorem updateFilters_visibility_witness:
  "map btn_dac (buttons demo_page) = ALL_DACS
   \<and> activeFilters (fst (updateFilters same_view demo_page demo_view)) = {''DAC2''}
   \<and> \<not> block_visible (blocks (fst (updateFilters same_view demo_page demo_view)) ! 0)
   \<and> block_visible (blocks (fst (updateFilters same_view demo_page demo_view)) ! 1)
   \<and> block_visible (blocks (fst (updateFilters same_view demo_page demo_view)) ! 2)
   \<and> \<not> block_visible (blocks (fst (updateFilters same_view demo_page demo_view)) ! 3)"
proof -
  let ?p = "fst (updateFilters same_view demo_page demo_view)"
  have h: "map btn_dac (buttons demo_page) = ALL_DACS"
    by (simp add: demo_page_def ALL_DACS_def)
  note t = updateFilters_visibility [OF h, of same_view demo_view]
  have a: "activeFilters ?p = {''DAC2''}"
    by (simp add: updateFilters_page)
      (simp add: applyFilters_def Let_def demo_page_def ALL_DACS_def)
  have n: "\<not> set ALL_DACS \<subseteq> {''DAC2''}" by (simp add: ALL_DACS_def)
  have l: "length (blocks demo_page) = 4" by (simp add: demo_page_def)
  have s: "sources (blocks demo_page ! 0) = [''DAC1'']"
    "sources (blocks demo_page ! 1) = [''DAC2'']"
    "sources (blocks demo_page ! 2) = [''DAC1'', ''DAC2'']"
    "sources (blocks demo_page ! 3) = [''Corrigendum'']"
    by (simp_all add: demo_page_def demo_block_def)
  from t have each: "\<forall>i < length (blocks demo_page).
      (block_visible (blocks ?p ! i) \<longleftrightarrow>
         set (sources (blocks demo_page ! i)) \<inter> activeFilters ?p \<noteq> {}
         \<or> set ALL_DACS \<subseteq> activeFilters ?p)"
    by blast
  have "\<not> block_visible (blocks ?p ! 0)" using each [rule_format, of 0] l s a n by simp
  moreover have "block_visible (blocks ?p ! 1)" using each [rule_format, of 1] l s a n by simp
  moreover have "block_visible (blocks ?p ! 2)" using each [rule_format, of 2] l s a n by simp
  moreover have "\<not> block_visible (blocks ?p ! 3)" using each [rule_format, of 3] l s a n by simp
  ultimately show ?thesis using h a by blast
qed

text \<open>
  The handlers keep the buttons' tags, so the page stays one whose buttons are those of
  \<open>renderFilters\<close>.
\<close>

lemma renderFilters_buttons: "map btn_dac (buttons (renderFilters p)) = ALL_DACS"
  by (simp add: renderFilters_def comp_def)

lemma handlers_keep_buttons:
  "map btn_dac (buttons (fst (updateFilters reflow p v))) = map btn_dac (buttons p)
   \<and> map btn_dac (buttons (fst (clickFilterBtn reflow i p v))) = map btn_dac (buttons p)
   \<and> map btn_dac (buttons (fst (clickShowAll reflow p v))) = map btn_dac (buttons p)
   \<and> map btn_dac (buttons (fst (clickNorwayRelevant reflow p v))) = map btn_dac (buttons p)"
proof -
  have "map btn_dac ((buttons p)[i := (buttons p ! i)\<lparr>btn_active := \<not> btn_active (buttons p ! i)\<rparr>])
      = map btn_dac (buttons p)"
    by (simp add: map_update) (metis list_update_id map_update)
  then show ?thesis
    by (simp add: clickFilterBtn_def clickShowAll_def clickNorwayRelevant_def
        updateFilters_page comp_def)
qed

subsection \<open>Facts about the scroll anchor\<close>

lemma closest_first_step:
  assumes "closest_first v seen a"
  shows "closest_first v (seen @ [el])
     (if (case bestDist a of None \<Rightarrow> True | Some best \<Rightarrow> \<bar>rect_top v el\<bar> < best)
      then \<lparr>anchorEl = Some el, anchorPageY = rect_top v el + pageYOffset v,
            anchorViewportY = rect_top v el, bestDist = Some \<bar>rect_top v el\<bar>\<rparr>
      else a)"
proof (cases "anchorEl a")
  case None
  with assms have "bestDist a = None" "seen = []" by (simp_all add: closest_first_def)
  then show ?thesis by (simp add: closest_first_def)
next
  case (Some e)
  with assms have b: "bestDist a = Some \<bar>rect_top v e\<bar>"
    and y: "anchorViewportY a = rect_top v e"
    and e: "e \<in> set seen"
    and le: "\<forall>c\<in>set seen. \<bar>rect_top v e\<bar> \<le> \<bar>rect_top v c\<bar>"
    and lt: "\<forall>c\<in>set (takeWhile (\<lambda>h. h \<noteq> e) seen). \<bar>rect_top v e\<bar> < \<bar>rect_top v c\<bar>"
    by (simp_all add: closest_first_def)
  show ?thesis
  proof (cases "\<bar>rect_top v el\<bar> < \<bar>rect_top v e\<bar>")
    case True
    with le have all: "\<forall>c\<in>set seen. \<bar>rect_top v el\<bar> < \<bar>rect_top v c\<bar>" by fastforce
    then have "el \<notin> set seen" by fastforce
    then have "takeWhile (\<lambda>h. h \<noteq> el) (seen @ [el]) = seen"
      by (induction seen) auto
    with True b all show ?thesis by (simp add: closest_first_def) fastforce
  next
    case False
    from e have "takeWhile (\<lambda>h. h \<noteq> e) (seen @ [el]) = takeWhile (\<lambda>h. h \<noteq> e) seen"
      by (simp add: takeWhile_append1)
    with False b y e le lt Some show ?thesis by (simp add: closest_first_def)
  qed
qed

lemma pickAnchor_closest:
  "closest_first v seen a \<Longrightarrow> closest_first v (seen @ hs) (pickAnchor v hs a)"
proof (induction hs arbitrary: seen a)
  case Nil
  then show ?case by simp
next
  case (Cons el els)
  note step = closest_first_step [OF Cons.prems, of el]
  show ?case
  proof (cases "case bestDist a of None \<Rightarrow> True | Some best \<Rightarrow> \<bar>rect_top v el\<bar> < best")
    case True
    with step Cons.IH [of "seen @ [el]"] show ?thesis by (simp add: Let_def)
  next
    case False
    with step Cons.IH [of "seen @ [el]" a] show ?thesis by (simp add: Let_def)
  qed
qed

lemma pickAnchor_found:
  assumes "anchorEl (pickAnchor v hs noAnchor) = Some el"
  shows "anchorViewportY (pickAnchor v hs noAnchor) = rect_top v el
    \<and> el \<in> set hs
    \<and> (\<forall>c\<in>set hs. \<bar>rect_top v el\<bar> \<le> \<bar>rect_top v c\<bar>)
    \<and> (\<forall>c\<in>set (takeWhile (\<lambda>h. h \<noteq> el) hs). \<bar>rect_top v el\<bar> < \<bar>rect_top v c\<bar>)"
proof -
  have "closest_first v [] noAnchor" by (simp add: closest_first_def noAnchor_def)
  from pickAnchor_closest [OF this, of hs] assms show ?thesis
    by (simp add: closest_first_def)
qed

lemma pickAnchor_none:
  "anchorEl (pickAnchor v hs noAnchor) = None \<longleftrightarrow> hs = []"
proof -
  have "closest_first v [] noAnchor" by (simp add: closest_first_def noAnchor_def)
  from pickAnchor_closest [OF this, of hs] show ?thesis
    by (cases "anchorEl (pickAnchor v hs noAnchor)")
      (auto simp: closest_first_def noAnchor_def)
qed

lemma updateFilters_view:
  assumes "anchorEl (pickAnchor v (headers p) noAnchor) = Some el"
  shows "snd (updateFilters reflow p v)
     = scrollTo ''auto''
         (rect_top (reflow (applyFilters p) v) el + pageYOffset (reflow (applyFilters p) v)
            - rect_top v el)
         (reflow (applyFilters p) v)"
  using assms pickAnchor_found [OF assms]
  by (simp add: updateFilters_def restoreAnchor_def Let_def)

text \<open>With no candidate at all there is no anchor, and the scroll step is skipped.\<close>

lemma updateFilters_no_anchor:
  "headers p = [] \<Longrightarrow> snd (updateFilters reflow p v) = reflow (applyFilters p) v"
  by (simp add: updateFilters_def restoreAnchor_def Let_def noAnchor_def)

lemma rect_top_scrollTo:
  assumes "0 \<le> y" "y \<le> max_scroll v"
  shows "rect_top (scrollTo b y v) el
     = (case page_top v el of None \<Rightarrow> 0 | Some t \<Rightarrow> t - y)"
  using assms by (simp add: rect_top_def scrollTo_def split: option.split)

text \<open>
  Claim C6, as amended. Let the anchor be the candidate that \<open>updateFilters\<close> picks
  before it changes the page. If the anchor has a box before the change and after it,
  and the offset that restores it lies in the range the document can be scrolled to,
  then after \<open>updateFilters\<close> the anchor is at the viewport position it had before; the
  scroll is not animated, and the root's \<open>scroll-behavior\<close> is what it was. Such an
  anchor is a candidate nearest to the top of the viewport, the first such in document
  order, and no candidate that has a box is nearer.
\<close>

theorem updateFilters_anchor_kept:
  assumes "anchorEl (pickAnchor v (headers p) noAnchor) = Some el"
    and "page_top v el \<noteq> None"
    and "page_top (reflow (applyFilters p) v) el \<noteq> None"
    and "0 \<le> rect_top (reflow (applyFilters p) v) el
            + pageYOffset (reflow (applyFilters p) v) - rect_top v el"
    and "rect_top (reflow (applyFilters p) v) el
            + pageYOffset (reflow (applyFilters p) v) - rect_top v el
          \<le> max_scroll (reflow (applyFilters p) v)"
  shows "rect_top (snd (updateFilters reflow p v)) el = rect_top v el
    \<and> page_top (snd (updateFilters reflow p v)) el \<noteq> None
    \<and> \<not> animated (snd (updateFilters reflow p v))
    \<and> scrollBehavior (fst (updateFilters reflow p v)) = scrollBehavior p
    \<and> el \<in> set (headers p)
    \<and> (\<forall>c\<in>set (headers p). \<bar>rect_top v el\<bar> \<le> \<bar>rect_top v c\<bar>)
    \<and> (\<forall>c\<in>set (takeWhile (\<lambda>h. h \<noteq> el) (headers p)). \<bar>rect_top v el\<bar> < \<bar>rect_top v c\<bar>)
    \<and> (\<forall>c\<in>set (headers p). \<forall>t. page_top v c = Some t \<longrightarrow>
          \<bar>rect_top v el\<bar> \<le> \<bar>t - pageYOffset v\<bar>)"
proof -
  let ?v1 = "reflow (applyFilters p) v"
  let ?y = "rect_top ?v1 el + pageYOffset ?v1 - rect_top v el"
  note view = updateFilters_view [OF assms(1), of reflow]
  from assms(2) obtain t0 where t0: "page_top v el = Some t0" by blast
  from assms(3) obtain t1 where t1: "page_top ?v1 el = Some t1" by blast
  have "rect_top (scrollTo ''auto'' ?y ?v1) el
      = (case page_top ?v1 el of None \<Rightarrow> 0 | Some t \<Rightarrow> t - ?y)"
    using assms(4,5) by (rule rect_top_scrollTo)
  also have "\<dots> = rect_top v el"
    using t0 t1 by (simp add: rect_top_def)
  finally have kept: "rect_top (snd (updateFilters reflow p v)) el = rect_top v el"
    by (simp only: view)
  have box: "page_top (snd (updateFilters reflow p v)) el \<noteq> None"
    using t1 by (simp only: view) (simp add: scrollTo_def)
  have still: "\<not> animated (snd (updateFilters reflow p v))"
    by (simp only: view) (simp add: scrollTo_def)
  have beh: "scrollBehavior (fst (updateFilters reflow p v)) = scrollBehavior p"
    by (simp add: updateFilters_page)
  note found = pickAnchor_found [OF assms(1)]
  have near: "\<forall>c\<in>set (headers p). \<forall>t. page_top v c = Some t \<longrightarrow>
      \<bar>rect_top v el\<bar> \<le> \<bar>t - pageYOffset v\<bar>"
  proof (intro ballI allI impI)
    fix c t assume c: "c \<in> set (headers p)" and t: "page_top v c = Some t"
    from found c have "\<bar>rect_top v el\<bar> \<le> \<bar>rect_top v c\<bar>" by blast
    with t show "\<bar>rect_top v el\<bar> \<le> \<bar>t - pageYOffset v\<bar>" by (simp add: rect_top_def)
  qed
  from kept box still beh found near show ?thesis by blast
qed

text \<open>
  The theorem on \<open>anchor_page\<close>: the second chapter heading is the anchor, 100 pixels
  below the top; hiding the article moves it up the page, and the scroll to offset 400
  puts it back at 100.
\<close>

theorem updateFilters_anchor_kept_witness:
  "anchorEl (pickAnchor view_low (headers anchor_page) noAnchor) = Some (ChapterHeading 1)
   \<and> page_top view_low (ChapterHeading 1) = Some 1000
   \<and> page_top view_moved (ChapterHeading 1) = Some 500
   \<and> rect_top view_low (ChapterHeading 1) = 100
   \<and> rect_top view_moved (ChapterHeading 1) = 50
   \<and> pageYOffset (snd (updateFilters (\<lambda>p v. view_moved) anchor_page view_low)) = 400
   \<and> rect_top (snd (updateFilters (\<lambda>p v. view_moved) anchor_page view_low)) (ChapterHeading 1)
       = 100"
proof -
  have a: "anchorEl (pickAnchor view_low (headers anchor_page) noAnchor)
      = Some (ChapterHeading 1)"
    by (simp add: anchor_page_def view_low_def view_of_def rect_top_def noAnchor_def)
  have r0: "rect_top view_low (ChapterHeading 1) = 100"
    by (simp add: view_low_def view_of_def rect_top_def)
  have r1: "rect_top view_moved (ChapterHeading 1) = 50" "pageYOffset view_moved = 450"
    "max_scroll view_moved = 1000"
    by (simp_all add: view_moved_def view_of_def rect_top_def)
  have b0: "page_top view_low (ChapterHeading 1) = Some 1000"
    by (simp add: view_low_def view_of_def)
  have b1: "page_top view_moved (ChapterHeading 1) = Some 500"
    by (simp add: view_moved_def view_of_def)
  from b0 have v0: "page_top view_low (ChapterHeading 1) \<noteq> None" by simp
  from b1 have v1: "page_top view_moved (ChapterHeading 1) \<noteq> None" by simp
  have lo: "0 \<le> rect_top view_moved (ChapterHeading 1) + pageYOffset view_moved
      - rect_top view_low (ChapterHeading 1)"
    using r0 r1 by simp
  have hi: "rect_top view_moved (ChapterHeading 1) + pageYOffset view_moved
      - rect_top view_low (ChapterHeading 1) \<le> max_scroll view_moved"
    using r0 r1 by simp
  from updateFilters_anchor_kept [of view_low anchor_page "ChapterHeading 1" "\<lambda>p v. view_moved",
      OF a v0 v1 lo hi]
  have k: "rect_top (snd (updateFilters (\<lambda>p v. view_moved) anchor_page view_low))
      (ChapterHeading 1) = rect_top view_low (ChapterHeading 1)"
    by blast
  have o: "pageYOffset (snd (updateFilters (\<lambda>p v. view_moved) anchor_page view_low)) = 400"
    using r0 r1 by (simp add: updateFilters_view [OF a] scrollTo_def)
  from a b0 b1 r0 r1(1) k o show ?thesis by simp
qed

text \<open>
  Claim C6 as stated fails when the restoring offset is out of range. On \<open>anchor_page\<close>
  the second chapter heading is the anchor, 100 pixels below the top, and it has a box
  before and after. Once the article is hidden the document no longer fills the
  viewport (\<open>view_short\<close>): the offset asked for is \<open>-40\<close>, the host stays at 0, and the
  heading ends 60 pixels below the top.
\<close>

theorem updateFilters_anchor_counterexample:
  "anchorEl (pickAnchor view_low (headers anchor_page) noAnchor) = Some (ChapterHeading 1)
   \<and> page_top view_low (ChapterHeading 1) \<noteq> None
   \<and> page_top view_short (ChapterHeading 1) \<noteq> None
   \<and> rect_top view_low (ChapterHeading 1) = 100
   \<and> rect_top (snd (updateFilters (\<lambda>p v. view_short) anchor_page view_low)) (ChapterHeading 1)
       = 60"
proof -
  have a: "anchorEl (pickAnchor view_low (headers anchor_page) noAnchor)
      = Some (ChapterHeading 1)"
    by (simp add: anchor_page_def view_low_def view_of_def rect_top_def noAnchor_def)
  have r0: "rect_top view_low (ChapterHeading 1) = 100"
    by (simp add: view_low_def view_of_def rect_top_def)
  have "rect_top (snd (updateFilters (\<lambda>p v. view_short) anchor_page view_low))
      (ChapterHeading 1) = 60"
    using r0 by (simp add: updateFilters_view [OF a])
      (simp add: scrollTo_def rect_top_def view_short_def view_of_def)
  with a r0 show ?thesis by (simp add: view_low_def view_short_def view_of_def)
qed

text \<open>
  Why the amended claim asks for an anchor with a box. The loop of lines 562 to 571
  measures every candidate, and a candidate without a box measures 0, so a header that
  is hidden already is taken for the anchor ahead of every header on display. On
  \<open>filtered_page\<close> the anchor is the header of the hidden first article; the header on
  display nearest to the top of the viewport is the second chapter heading, 70 pixels
  below it. The filter hides the second article, the hidden anchor measures 0 again, the
  window stays at offset 500, which is in range, and the heading, on display before and
  after, ends 30 pixels above the top.
\<close>

lemma updateFilters_hidden_anchor:
  "anchorEl (pickAnchor view_hidden (headers filtered_page) noAnchor) = Some (ArticleHeader 0)
   \<and> page_top view_hidden (ArticleHeader 0) = None
   \<and> \<not> block_visible (blocks filtered_page ! 0)
   \<and> map (rect_top view_hidden) (headers filtered_page) = [- 500, 0, - 400, 70]
   \<and> page_top view_hidden (ChapterHeading 1) = Some 570
   \<and> page_top view_closed (ChapterHeading 1) = Some 470
   \<and> pageYOffset (snd (updateFilters (\<lambda>p v. view_closed) filtered_page view_hidden)) = 500
   \<and> max_scroll view_closed = 900
   \<and> rect_top (snd (updateFilters (\<lambda>p v. view_closed) filtered_page view_hidden))
        (ChapterHeading 1) = - 30"
proof -
  have a: "anchorEl (pickAnchor view_hidden (headers filtered_page) noAnchor)
      = Some (ArticleHeader 0)"
    by (simp add: filtered_page_def view_hidden_def view_at_def rect_top_def noAnchor_def)
  have h: "page_top view_hidden (ArticleHeader 0) = None"
    "page_top view_hidden (ChapterHeading 1) = Some 570"
    "page_top view_closed (ChapterHeading 1) = Some 470"
    "max_scroll view_closed = 900"
    by (simp_all add: view_hidden_def view_closed_def view_at_def)
  have b: "\<not> block_visible (blocks filtered_page ! 0)"
    by (simp add: filtered_page_def block_visible_def demo_block_def)
  have r: "map (rect_top view_hidden) (headers filtered_page) = [- 500, 0, - 400, 70]"
    by (simp add: filtered_page_def view_hidden_def view_at_def rect_top_def)
  have v: "snd (updateFilters (\<lambda>p v. view_closed) filtered_page view_hidden)
      = scrollTo ''auto'' 500 view_closed"
    by (simp add: updateFilters_view [OF a])
      (simp add: view_hidden_def view_closed_def view_at_def rect_top_def)
  have o: "pageYOffset (scrollTo ''auto'' 500 view_closed) = 500"
    "rect_top (scrollTo ''auto'' 500 view_closed) (ChapterHeading 1) = - 30"
    by (simp_all add: scrollTo_def view_closed_def view_at_def rect_top_def)
  from a h b r v o show ?thesis by simp
qed

text \<open>
  Claim C7, as amended. After the page has been changed, \<open>updateFilters\<close> measures the
  very element it picked as anchor before the change, and scrolls to that element's new
  page position less its old viewport position, without animation. There is no fallback
  to another anchor: when the anchor has no box any more, its rectangle is all zeros and
  the offset asked for is the current scroll offset less the old viewport position.
\<close>

theorem updateFilters_anchor_by_identity:
  assumes "anchorEl (pickAnchor v (headers p) noAnchor) = Some el"
  shows "snd (updateFilters reflow p v)
       = scrollTo ''auto''
           (rect_top (reflow (applyFilters p) v) el + pageYOffset (reflow (applyFilters p) v)
              - rect_top v el)
           (reflow (applyFilters p) v)
    \<and> (page_top (reflow (applyFilters p) v) el = None \<longrightarrow>
         snd (updateFilters reflow p v)
           = scrollTo ''auto'' (pageYOffset (reflow (applyFilters p) v) - rect_top v el)
               (reflow (applyFilters p) v))"
proof -
  note view = updateFilters_view [OF assms, of reflow]
  have "page_top (reflow (applyFilters p) v) el = None \<longrightarrow>
      rect_top (reflow (applyFilters p) v) el = 0"
    by (simp add: rect_top_def)
  with view show ?thesis by simp
qed

text \<open>
  The theorem on \<open>anchor_page\<close>: the article header is the anchor, 10 pixels below the
  top; once the article is hidden it has no box, and the window is scrolled from 990 to
  980.
\<close>

theorem updateFilters_anchor_by_identity_witness:
  "anchorEl (pickAnchor view_article (headers anchor_page) noAnchor) = Some (ArticleHeader 0)
   \<and> page_top view_gone (ArticleHeader 0) = None
   \<and> snd (updateFilters (\<lambda>p v. view_gone) anchor_page view_article)
       = scrollTo ''auto'' (pageYOffset view_gone - rect_top view_article (ArticleHeader 0))
           view_gone
   \<and> pageYOffset (snd (updateFilters (\<lambda>p v. view_gone) anchor_page view_article)) = 980"
proof -
  have a: "anchorEl (pickAnchor view_article (headers anchor_page) noAnchor)
      = Some (ArticleHeader 0)"
    by (simp add: anchor_page_def view_article_def view_of_def rect_top_def noAnchor_def)
  have g: "page_top view_gone (ArticleHeader 0) = None"
    by (simp add: view_gone_def view_of_def)
  from updateFilters_anchor_by_identity [of view_article anchor_page "ArticleHeader 0"
      "\<lambda>p v. view_gone", OF a] g
  have s: "snd (updateFilters (\<lambda>p v. view_gone) anchor_page view_article)
      = scrollTo ''auto'' (pageYOffset view_gone - rect_top view_article (ArticleHeader 0))
          view_gone"
    by blast
  have "pageYOffset (scrollTo ''auto''
      (pageYOffset view_gone - rect_top view_article (ArticleHeader 0)) view_gone) = 980"
    by (simp add: scrollTo_def view_gone_def view_article_def view_of_def rect_top_def)
  with a g s show ?thesis by simp
qed

text \<open>
  Claim C7 as stated fails: on \<open>anchor_page\<close> the filter has hidden the article (its tag
  \<open>DAC7\<close> is not active), so its header, the anchor, has lost its box, and the first
  chapter heading is the nearest anchor before it that still has one. The code does not
  turn to that heading: it scrolls to 980, the offset computed from the hidden header's
  zero rectangle, which keeps the heading neither where the heading was (990 above the
  top) nor where the anchor was (10 below it).
\<close>

theorem updateFilters_fallback_counterexample:
  "anchorEl (pickAnchor view_article (headers anchor_page) noAnchor) = Some (ArticleHeader 0)
   \<and> \<not> block_visible
         (blocks (fst (updateFilters (\<lambda>p v. view_gone) anchor_page view_article)) ! 0)
   \<and> page_top view_gone (ArticleHeader 0) = None
   \<and> relocate_spec view_gone (headers anchor_page) (ArticleHeader 0) = Some (ChapterHeading 0)
   \<and> pageYOffset (snd (updateFilters (\<lambda>p v. view_gone) anchor_page view_article)) = 980
   \<and> rect_top view_article (ChapterHeading 0) = - 990
   \<and> rect_top view_article (ArticleHeader 0) = 10
   \<and> rect_top (snd (updateFilters (\<lambda>p v. view_gone) anchor_page view_article))
        (ChapterHeading 0) = - 980"
proof -
  have a: "anchorEl (pickAnchor view_article (headers anchor_page) noAnchor)
      = Some (ArticleHeader 0)"
    by (simp add: anchor_page_def view_article_def view_of_def rect_top_def noAnchor_def)
  have hid: "\<not> block_visible
      (blocks (fst (updateFilters (\<lambda>p v. view_gone) anchor_page view_article)) ! 0)"
    by (simp add: updateFilters_page)
      (simp add: applyFilters_def Let_def anchor_page_def demo_page_def demo_block_def
        block_visible_def someActive_def ALL_DACS_def)
  have g: "page_top view_gone (ArticleHeader 0) = None"
    by (simp add: view_gone_def view_of_def)
  have f: "relocate_spec view_gone (headers anchor_page) (ArticleHeader 0)
      = Some (ChapterHeading 0)"
    by (simp add: relocate_spec_def anchor_page_def view_gone_def view_of_def)
  have r: "rect_top view_article (ChapterHeading 0) = - 990"
    "rect_top view_article (ArticleHeader 0) = 10"
    by (simp_all add: view_article_def view_of_def rect_top_def)
  have v: "snd (updateFilters (\<lambda>p v. view_gone) anchor_page view_article)
      = scrollTo ''auto'' 980 view_gone"
    using r by (simp add: updateFilters_view [OF a])
      (simp add: view_gone_def view_of_def rect_top_def)
  have o: "pageYOffset (scrollTo ''auto'' 980 view_gone) = 980"
    "rect_top (scrollTo ''auto'' 980 view_gone) (ChapterHeading 0) = - 980"
    by (simp_all add: scrollTo_def view_gone_def view_of_def rect_top_def)
  from a hid g f r v o show ?thesis by simp
qed

subsection \<open>Facts about text and highlight elements\<close>

lemma textContent_mergeText:
  "concat (map textContent (mergeText ns)) = concat (map textContent ns)"
  by (induction ns rule: mergeText.induct) simp_all

lemma textContent_normalizeNode: "textContent (normalizeNode n) = textContent n"
proof (induction n)
  case (Text s)
  show ?case by simp
next
  case (Elem cls kids)
  then have "map textContent (map normalizeNode kids) = map textContent kids" by simp
  then show ?case by (simp add: textContent_mergeText del: map_map)
qed

lemma textContent_clearNode: "textContent (clearNode n) = textContent n"
proof (induction n)
  case (Text s)
  show ?case by simp
next
  case (Elem cls kids)
  then have a: "map textContent (map clearNode kids) = map textContent kids" by simp
  then have "map textContent (map normalizeNode (map clearNode kids)) = map textContent kids"
    by (simp add: textContent_normalizeNode comp_def)
  with a show ?case by (simp add: textContent_mergeText del: map_map)
qed

lemma textContent_clearNodes:
  "concat (map textContent (clearNodes kids)) = concat (map textContent kids)"
proof -
  have a: "map textContent (map clearNode kids) = map textContent kids"
    by (simp add: textContent_clearNode)
  then have "map textContent (map normalizeNode (map clearNode kids)) = map textContent kids"
    by (simp add: textContent_normalizeNode comp_def)
  with a show ?thesis by (simp add: clearNodes_def textContent_mergeText del: map_map)
qed

lemma highlightsOf_mergeText:
  "concat (map highlightsOf (mergeText ns)) = concat (map highlightsOf ns)"
  by (induction ns rule: mergeText.induct) simp_all

lemma highlightsOf_normalizeNode: "highlightsOf (normalizeNode n) = highlightsOf n"
proof (induction n)
  case (Text s)
  show ?case by simp
next
  case (Elem cls kids)
  then have "map highlightsOf (map normalizeNode kids) = map highlightsOf kids" by simp
  then show ?case by (simp add: highlightsOf_mergeText del: map_map)
qed

lemma highlightsOf_clearNode: "highlightsOf (clearNode n) = []"
proof (induction n)
  case (Text s)
  show ?case by simp
next
  case (Elem cls kids)
  then have a: "concat (map highlightsOf (map clearNode kids)) = []" by simp
  have "map highlightsOf (map normalizeNode (map clearNode kids)) = map highlightsOf (map clearNode kids)"
    by (simp add: highlightsOf_normalizeNode)
  with a have "concat (map highlightsOf (map normalizeNode (map clearNode kids))) = []"
    by (simp only:)
  then have b: "concat (map highlightsOf (mergeText (map normalizeNode (map clearNode kids)))) = []"
    by (simp only: highlightsOf_mergeText)
  from a b show ?case by (simp del: map_map concat_eq_Nil_conv)
qed

lemma bodyHighlights_clearNodes: "bodyHighlights (clearNodes kids) = []"
proof -
  have a: "concat (map highlightsOf (map clearNode kids)) = []"
    by (simp add: highlightsOf_clearNode)
  have "map highlightsOf (map normalizeNode (map clearNode kids)) = map highlightsOf (map clearNode kids)"
    by (simp add: highlightsOf_normalizeNode)
  with a have "concat (map highlightsOf (map normalizeNode (map clearNode kids))) = []"
    by (simp only:)
  then have b: "concat (map highlightsOf (mergeText (map normalizeNode (map clearNode kids)))) = []"
    by (simp only: highlightsOf_mergeText)
  from a b show ?thesis
    by (simp add: bodyHighlights_def clearNodes_def del: map_map concat_eq_Nil_conv)
qed

lemma pageHighlights_clearSearch: "pageHighlights (blocks (clearSearch p)) = []"
  by (simp add: pageHighlights_def clearSearch_def bodyHighlights_clearNodes comp_def)

subsection \<open>Facts about following a reference to a highlight element\<close>

lemma highlightsOf_onHighlight:
  shows "\<forall>c. isHighlight (f c) = isHighlight c \<Longrightarrow>
      highlightsOf (onHighlight f k n) = (highlightsOf n)[k := f (highlightsOf n ! k)]"
    and "\<forall>c. isHighlight (f c) = isHighlight c \<Longrightarrow>
      concat (map highlightsOf (onHighlights f k ns))
       = (concat (map highlightsOf ns))[k := f (concat (map highlightsOf ns) ! k)]"
proof (induction f k n and f k ns rule: onHighlight_onHighlights.induct)
  case (1 f k s)
  show ?case by simp
next
  case (2 f k cls kids)
  show ?case
  proof (cases "isHighlight cls")
    case True
    show ?thesis
    proof (cases k)
      case 0
      with True 2 show ?thesis by simp
    next
      case (Suc j)
      with True 2 show ?thesis by simp
    qed
  next
    case False
    with 2 show ?thesis by simp
  qed
next
  case (3 f k)
  show ?case by simp
next
  case (4 f k n ns)
  show ?case
  proof (cases "k < length (highlightsOf n)")
    case True
    with 4 show ?thesis by (simp add: list_update_append nth_append)
  next
    case False
    with 4 show ?thesis by (simp add: list_update_append nth_append)
  qed
qed

lemma bodyHighlights_onHighlights:
  assumes "\<forall>c. isHighlight (f c) = isHighlight c"
  shows "bodyHighlights (onHighlights f k ns)
     = (bodyHighlights ns)[k := f (bodyHighlights ns ! k)]"
  using highlightsOf_onHighlight(2) [of f k ns] assms by (simp add: bodyHighlights_def)

lemma textContent_onHighlight:
  "textContent (onHighlight f k n) = textContent n"
  "map textContent (onHighlights f k ns) = map textContent ns"
  by (induction f k n and f k ns rule: onHighlight_onHighlights.induct) simp_all

lemma clearNode_onHighlight:
  shows "\<forall>c. isHighlight (f c) = isHighlight c \<Longrightarrow>
      clearNode (onHighlight f k n) = clearNode n
      \<and> isHighlightNode (onHighlight f k n) = isHighlightNode n"
    and "\<forall>c. isHighlight (f c) = isHighlight c \<Longrightarrow>
      map clearNode (onHighlights f k ns) = map clearNode ns
      \<and> list_ex isHighlightNode (onHighlights f k ns) = list_ex isHighlightNode ns"
proof (induction f k n and f k ns rule: onHighlight_onHighlights.induct)
  case (1 f k s)
  show ?case by simp
next
  case (2 f k cls kids)
  show ?case
  proof (cases "isHighlight cls")
    case True
    with 2 show ?thesis by (simp add: textContent_onHighlight)
  next
    case False
    with 2 show ?thesis by simp
  qed
next
  case (3 f k)
  show ?case by simp
next
  case (4 f k n ns)
  then show ?case by simp
qed

lemma clearNodes_onHighlights:
  assumes "\<forall>c. isHighlight (f c) = isHighlight c"
  shows "clearNodes (onHighlights f k ns) = clearNodes ns"
  using clearNode_onHighlight(2) [of f k ns] assms by (simp add: clearNodes_def)

lemma onHighlight_twice:
  shows "\<forall>c. isHighlight (f c) = isHighlight c \<Longrightarrow>
      onHighlight g k (onHighlight f k n) = onHighlight (\<lambda>c. g (f c)) k n"
    and "\<forall>c. isHighlight (f c) = isHighlight c \<Longrightarrow>
      onHighlights g k (onHighlights f k ns) = onHighlights (\<lambda>c. g (f c)) k ns"
proof (induction f k n and f k ns rule: onHighlight_onHighlights.induct)
  case (1 f k s)
  show ?case by simp
next
  case (2 f k cls kids)
  then show ?case by simp
next
  case (3 f k)
  show ?case by simp
next
  case (4 f k n ns)
  have len: "length (highlightsOf (onHighlight f k n)) = length (highlightsOf n)"
    using highlightsOf_onHighlight(1) [of f k n] 4 by simp
  from 4 show ?case by (simp add: len)
qed

lemma onHighlight_same:
  shows "k < length (highlightsOf n) \<Longrightarrow> f (highlightsOf n ! k) = highlightsOf n ! k
      \<Longrightarrow> onHighlight f k n = n"
    and "k < length (concat (map highlightsOf ns))
      \<Longrightarrow> f (concat (map highlightsOf ns) ! k) = concat (map highlightsOf ns) ! k
      \<Longrightarrow> onHighlights f k ns = ns"
proof (induction f k n and f k ns rule: onHighlight_onHighlights.induct)
  case (1 f k s)
  show ?case by simp
next
  case (2 f k cls kids)
  show ?case
  proof (cases "isHighlight cls")
    case True
    show ?thesis
    proof (cases k)
      case 0
      with True 2 show ?thesis by simp
    next
      case (Suc j)
      with True 2 show ?thesis by simp
    qed
  next
    case False
    with 2 show ?thesis by simp
  qed
next
  case (3 f k)
  show ?case by simp
next
  case (4 f k n ns)
  show ?case
  proof (cases "k < length (highlightsOf n)")
    case True
    with 4 show ?thesis by (simp add: nth_append)
  next
    case False
    with 4 show ?thesis by (simp add: nth_append)
  qed
qed

lemma pageHighlights_Cons:
  "pageHighlights (b # bs) = bodyHighlights (body b) @ pageHighlights bs"
  by (simp add: pageHighlights_def)

lemma pageHighlights_bodies:
  "map body bs = map body bs' \<Longrightarrow> pageHighlights bs = pageHighlights bs'"
proof -
  assume "map body bs = map body bs'"
  then have "map bodyHighlights (map body bs) = map bodyHighlights (map body bs')" by simp
  then show ?thesis by (simp add: pageHighlights_def comp_def)
qed

lemma pageHighlights_onMatchBlock:
  assumes pres: "\<forall>c. isHighlight (f c) = isHighlight c"
  shows "pageHighlights (onMatchBlock (\<lambda>b j. b\<lparr>body := onHighlights f j (body b)\<rparr>) k bs)
     = (pageHighlights bs)[k := f (pageHighlights bs ! k)]"
proof (induction bs arbitrary: k)
  case Nil
  show ?case by (simp add: pageHighlights_def)
next
  case (Cons b bs)
  show ?case
  proof (cases "k < length (bodyHighlights (body b))")
    case True
    then show ?thesis
      by (simp add: pageHighlights_Cons bodyHighlights_onHighlights [OF pres]
          list_update_append nth_append)
  next
    case False
    with Cons show ?thesis
      by (simp add: pageHighlights_Cons list_update_append nth_append)
  qed
qed

lemma onMatchBlock_twice:
  assumes pres: "\<forall>c. isHighlight (f c) = isHighlight c"
  shows "onMatchBlock (\<lambda>b j. b\<lparr>body := onHighlights g j (body b)\<rparr>) k
       (onMatchBlock (\<lambda>b j. b\<lparr>body := onHighlights f j (body b)\<rparr>) k bs)
     = onMatchBlock (\<lambda>b j. b\<lparr>body := onHighlights (\<lambda>c. g (f c)) j (body b)\<rparr>) k bs"
proof (induction bs arbitrary: k)
  case Nil
  show ?case by simp
next
  case (Cons b bs)
  have len: "length (bodyHighlights (onHighlights f k (body b))) = length (bodyHighlights (body b))"
    by (simp add: bodyHighlights_onHighlights [OF pres])
  show ?case
  proof (cases "k < length (bodyHighlights (body b))")
    case True
    then show ?thesis by (simp add: len onHighlight_twice(2) [OF pres])
  next
    case False
    with Cons show ?thesis by simp
  qed
qed

lemma onMatchBlock_same:
  "k < length (pageHighlights bs) \<Longrightarrow> f (pageHighlights bs ! k) = pageHighlights bs ! k
     \<Longrightarrow> onMatchBlock (\<lambda>b j. b\<lparr>body := onHighlights f j (body b)\<rparr>) k bs = bs"
proof (induction bs arbitrary: k)
  case Nil
  show ?case by simp
next
  case (Cons b bs)
  show ?case
  proof (cases "k < length (bodyHighlights (body b))")
    case True
    with Cons.prems have "f (bodyHighlights (body b) ! k) = bodyHighlights (body b) ! k"
      by (simp add: pageHighlights_Cons nth_append)
    with True have "onHighlights f k (body b) = body b"
      using onHighlight_same(2) [of k "body b" f] by (simp add: bodyHighlights_def)
    with True show ?thesis by simp
  next
    case False
    with Cons.prems have "k - length (bodyHighlights (body b)) < length (pageHighlights bs)"
      and "f (pageHighlights bs ! (k - length (bodyHighlights (body b))))
        = pageHighlights bs ! (k - length (bodyHighlights (body b)))"
      by (simp_all add: pageHighlights_Cons nth_append)
    with Cons.IH False show ?thesis by simp
  qed
qed

lemma onMatchBlock_bodies:
  "map body bs = map body bs' \<Longrightarrow>
     map body (onMatchBlock (\<lambda>b j. b\<lparr>body := onHighlights f j (body b)\<rparr>) k bs)
   = map body (onMatchBlock (\<lambda>b j. b\<lparr>body := onHighlights f j (body b)\<rparr>) k bs')"
proof (induction bs arbitrary: bs' k)
  case Nil
  then show ?case by simp
next
  case (Cons b bs)
  then obtain c cs where c: "bs' = c # cs" "body c = body b" "map body bs = map body cs"
    by (cases bs') auto
  with Cons.IH [of cs] show ?case by simp
qed

lemma expandBlock_bodies: "map body (expandBlock k bs) = map body bs"
  unfolding expandBlock_def by (induction bs arbitrary: k) simp_all

lemma pres_insert_current: "\<forall>c. isHighlight (insert ''current'' c) = isHighlight c"
  by (simp add: isHighlight_def)

lemma pres_remove_current: "\<forall>c. isHighlight (c - {''current''}) = isHighlight c"
  by (simp add: isHighlight_def)

lemma pageHighlights_addCurrent:
  "pageHighlights (addCurrent k bs)
     = (pageHighlights bs)[k := insert ''current'' (pageHighlights bs ! k)]"
  unfolding addCurrent_def by (rule pageHighlights_onMatchBlock [OF pres_insert_current])

lemma pageHighlights_removeCurrent:
  "pageHighlights (removeCurrent k bs)
     = (pageHighlights bs)[k := pageHighlights bs ! k - {''current''}]"
  unfolding removeCurrent_def by (rule pageHighlights_onMatchBlock [OF pres_remove_current])

lemma pageHighlights_expandBlock: "pageHighlights (expandBlock k bs) = pageHighlights bs"
  by (rule pageHighlights_bodies) (rule expandBlock_bodies)

text \<open>Unmarking the element that was just marked gives back an unmarked page.\<close>

lemma removeCurrent_addCurrent:
  assumes "k < length (pageHighlights bs)" "''current'' \<notin> pageHighlights bs ! k"
  shows "removeCurrent k (addCurrent k bs) = bs"
proof -
  have "removeCurrent k (addCurrent k bs)
      = onMatchBlock (\<lambda>b j. b\<lparr>body := onHighlights (\<lambda>c. insert ''current'' c - {''current''}) j (body b)\<rparr>) k bs"
    unfolding removeCurrent_def addCurrent_def
    by (rule onMatchBlock_twice [OF pres_insert_current])
  also have "\<dots> = bs"
    using assms by (intro onMatchBlock_same) simp_all
  finally show ?thesis .
qed

lemma addCurrent_removeCurrent:
  assumes "k < length (pageHighlights bs)" "''current'' \<in> pageHighlights bs ! k"
  shows "addCurrent k (removeCurrent k bs) = bs"
proof -
  have "addCurrent k (removeCurrent k bs)
      = onMatchBlock (\<lambda>b j. b\<lparr>body := onHighlights (\<lambda>c. insert ''current'' (c - {''current''})) j (body b)\<rparr>) k bs"
    unfolding removeCurrent_def addCurrent_def
    by (rule onMatchBlock_twice [OF pres_remove_current])
  also have "\<dots> = bs"
    using assms by (intro onMatchBlock_same) (simp_all add: insert_absorb)
  finally show ?thesis .
qed

lemma addCurrent_bodies:
  "map body bs = map body bs' \<Longrightarrow> map body (addCurrent k bs) = map body (addCurrent k bs')"
  unfolding addCurrent_def by (rule onMatchBlock_bodies)

lemma removeCurrent_bodies:
  "map body bs = map body bs' \<Longrightarrow> map body (removeCurrent k bs) = map body (removeCurrent k bs')"
  unfolding removeCurrent_def by (rule onMatchBlock_bodies)

lemma clearNodes_bodies_onMatchBlock:
  assumes pres: "\<forall>c. isHighlight (f c) = isHighlight c"
  shows "map (\<lambda>b. clearNodes (body b)) (onMatchBlock (\<lambda>b j. b\<lparr>body := onHighlights f j (body b)\<rparr>) k bs)
     = map (\<lambda>b. clearNodes (body b)) bs"
  by (induction bs arbitrary: k) (simp_all add: clearNodes_onHighlights [OF pres])

subsection \<open>Facts about the regular expression and the fragments of a text node\<close>

lemma slice_append:
  "a \<le> b \<Longrightarrow> b \<le> c \<Longrightarrow> slice s a b @ slice s b c = slice s a c"
proof -
  assume ab: "a \<le> b" and bc: "b \<le> c"
  have "take (b - a) (drop a s) @ take (c - b) (drop (b - a) (drop a s))
      = take ((b - a) + (c - b)) (drop a s)"
    by (simp add: take_add)
  with ab bc show ?thesis by (simp add: slice_def)
qed

lemma slice_empty: "slice s a a = []"
  by (simp add: slice_def)

lemma slice_all: "slice s 0 (length s) = s"
  by (simp add: slice_def)

lemma find_Some_holds: "find P xs = Some x \<Longrightarrow> P x"
  by (induction xs) (auto split: if_splits)

lemma find_Some_member: "find P xs = Some x \<Longrightarrow> x \<in> set xs"
  by (induction xs) (auto split: if_splits)

lemma regexExec_Some:
  assumes "regexExec r s = (Some i, r')"
  shows "lastIndex r \<le> i \<and> i + length (pattern r) \<le> length s
    \<and> r' = r\<lparr>lastIndex := i + length (pattern r)\<rparr>"
proof -
  from assms have f: "find (matchAt (pattern r) s) [lastIndex r ..< Suc (length s)] = Some i"
    and r': "r' = r\<lparr>lastIndex := i + length (pattern r)\<rparr>"
    by (auto simp: regexExec_def split: if_splits option.splits)
  from f have "matchAt (pattern r) s i" by (rule find_Some_holds)
  moreover from f have "i \<in> set [lastIndex r ..< Suc (length s)]" by (rule find_Some_member)
  then have "lastIndex r \<le> i" by (simp only: set_upt atLeastLessThan_iff)
  ultimately show ?thesis using r' by (simp add: matchAt_def)
qed

lemma regexExec_None:
  assumes "regexExec r s = (None, r')"
  shows "r' = r\<lparr>lastIndex := 0\<rparr>"
  using assms by (auto simp: regexExec_def split: if_splits option.splits)

lemma isFragment_highlightSpan:
  "isFragment (highlightSpan m) \<and> isHighlightNode (highlightSpan m)
   \<and> textContent (highlightSpan m) = m"
  by (simp add: highlightSpan_def isHighlight_def)

text \<open>
  With a pattern that is not empty the loop returns: every match moves \<open>lastIndex\<close>
  forward. What it adds to the fragments is text of the node from the start index up to
  the end of the last match, cut into text nodes and spans.
\<close>

lemma execLoop_returns:
  assumes pat: "pattern r \<noteq> []"
  shows "\<exists>out e. execLoop r s (lastIndex r) acc = Some (acc @ out, e, r\<lparr>lastIndex := 0\<rparr>)
      \<and> lastIndex r \<le> e \<and> (lastIndex r \<le> length s \<longrightarrow> e \<le> length s)
      \<and> concat (map textContent out) = slice s (lastIndex r) e
      \<and> list_all isFragment out
      \<and> (out \<noteq> [] \<longrightarrow> list_ex isHighlightNode out)"
  using pat
proof (induction "Suc (length s) - lastIndex r" arbitrary: r acc rule: less_induct)
  case less
  show ?case
  proof (cases "regexExec r s")
    case (Pair m r')
    show ?thesis
    proof (cases m)
      case None
      with Pair have "r' = r\<lparr>lastIndex := 0\<rparr>" by (simp add: regexExec_None)
      with Pair None have "execLoop r s (lastIndex r) acc
          = Some (acc @ [], lastIndex r, r\<lparr>lastIndex := 0\<rparr>)"
        by (subst execLoop.simps) simp
      then show ?thesis by (intro exI [of _ "[]"] exI [of _ "lastIndex r"]) (simp add: slice_empty)
    next
      case (Some i)
      with Pair have e: "regexExec r s = (Some i, r')" by simp
      note x = regexExec_Some [OF e]
      let ?n = "length (pattern r)"
      let ?new = "(if i > lastIndex r then [Text (slice s (lastIndex r) i)] else [])
          @ [highlightSpan (slice s i (i + ?n))]"
      from less.prems obtain c cs where "pattern r = c # cs" by (cases "pattern r") auto
      then have "?n = Suc (length cs)" by simp
      with x have li: "lastIndex r' = i + ?n" "pattern r' = pattern r"
        "lastIndex r < lastIndex r'" "lastIndex r' \<le> length s"
        by simp_all
      then have dec: "Suc (length s) - lastIndex r' < Suc (length s) - lastIndex r" by simp
      from li less.prems have pat': "pattern r' \<noteq> []" by simp
      from less.hyps [OF dec pat', of "acc @ ?new"]
      obtain out e where o: "execLoop r' s (lastIndex r') (acc @ ?new)
            = Some ((acc @ ?new) @ out, e, r'\<lparr>lastIndex := 0\<rparr>)"
          "lastIndex r' \<le> e" "e \<le> length s"
          "concat (map textContent out) = slice s (lastIndex r') e"
          "list_all isFragment out"
        using li by blast
      have r0: "r'\<lparr>lastIndex := 0\<rparr> = r\<lparr>lastIndex := 0\<rparr>" using x by simp
      have run: "execLoop r s (lastIndex r) acc = Some (acc @ (?new @ out), e, r\<lparr>lastIndex := 0\<rparr>)"
        using e o(1) r0 by (subst execLoop.simps) simp
      have tc: "concat (map textContent ?new) = slice s (lastIndex r) (i + ?n)"
      proof (cases "i > lastIndex r")
        case True
        then show ?thesis
          using slice_append [of "lastIndex r" i "i + ?n" s]
          by (simp add: isFragment_highlightSpan)
      next
        case False
        with x have "i = lastIndex r" by simp
        then show ?thesis by (simp add: isFragment_highlightSpan)
      qed
      have "concat (map textContent (?new @ out)) = slice s (lastIndex r) (i + ?n) @ slice s (i + ?n) e"
        using tc o(4) li by (simp del: append_assoc)
      also have "\<dots> = slice s (lastIndex r) e"
        using x o(2) li by (intro slice_append) simp_all
      finally have all: "concat (map textContent (?new @ out)) = slice s (lastIndex r) e" .
      have fr: "list_all isFragment (?new @ out)"
        using o(5) by (simp add: isFragment_highlightSpan)
      have hl: "list_ex isHighlightNode (?new @ out)"
        by (simp add: isFragment_highlightSpan)
      have le: "lastIndex r \<le> e" using li o(2) by simp
      from run all fr hl le o(3) show ?thesis by blast
    qed
  qed
qed

lemma highlightNode_returns:
  assumes pat: "pattern r \<noteq> []"
  shows "\<exists>frs. highlightNode r s = Some (frs, r\<lparr>lastIndex := 0\<rparr>)
      \<and> concat (map textContent frs) = s
      \<and> list_all isFragment frs
      \<and> (frs = [Text s] \<or> list_ex isHighlightNode frs)"
proof -
  let ?r = "r\<lparr>lastIndex := 0\<rparr>"
  from pat have "pattern ?r \<noteq> []" by simp
  from execLoop_returns [OF this, of s "[]"]
  obtain out e where o: "execLoop ?r s 0 [] = Some (out, e, ?r)" "e \<le> length s"
      "concat (map textContent out) = slice s 0 e" "list_all isFragment out"
      "out \<noteq> [] \<longrightarrow> list_ex isHighlightNode out"
    by auto
  show ?thesis
  proof (cases "out = []")
    case True
    with o(1) have "highlightNode r s = Some ([Text s], ?r)" by (simp add: highlightNode_def)
    then show ?thesis by simp
  next
    case False
    let ?tail = "(if e < length s then [Text (slice s e (length s))] else [])"
    from False o(1) have h: "highlightNode r s = Some (out @ ?tail, ?r)"
      by (simp add: highlightNode_def)
    have "concat (map textContent (out @ ?tail)) = slice s 0 e @ slice s e (length s)"
      using o(2,3) by (auto simp: slice_empty)
    also have "\<dots> = s" using o(2) slice_append [of 0 e "length s" s] by (simp add: slice_all)
    finally have t: "concat (map textContent (out @ ?tail)) = s" .
    have f: "list_all isFragment (out @ ?tail)" using o(4) by simp
    have x: "list_ex isHighlightNode (out @ ?tail)" using False o(5) by simp
    from h t f x show ?thesis by blast
  qed
qed

subsection \<open>Facts about replacing the collected text nodes\<close>

lemma replaceNode_splits:
  shows "pattern r \<noteq> [] \<Longrightarrow>
      \<exists>out ds' r'. replaceNode ds r n = Some (out, ds', r') \<and> pattern r' = pattern r
        \<and> splitNode n out"
    and "pattern r \<noteq> [] \<Longrightarrow>
      \<exists>out ds' r'. replaceNodes ds r ns = Some (out, ds', r') \<and> pattern r' = pattern r
        \<and> splitNodes ns out"
proof (induction ds r n and ds r ns rule: replaceNode_replaceNodes.induct)
  case (1 ds r s)
  show ?case
  proof (cases ds)
    case Nil
    then show ?thesis by (simp add: splitNode_splitNodes.keep)
  next
    case (Cons d ds')
    show ?thesis
    proof (cases d)
      case False
      with Cons show ?thesis by (simp add: splitNode_splitNodes.keep)
    next
      case True
      from highlightNode_returns [OF 1, of s]
      obtain frs where f: "highlightNode r s = Some (frs, r\<lparr>lastIndex := 0\<rparr>)"
          "concat (map textContent frs) = s" "list_all isFragment frs"
          "frs = [Text s] \<or> list_ex isHighlightNode frs"
        by blast
      have "splitNode (Text s) frs"
      proof (cases "frs = [Text s]")
        case True
        then show ?thesis by (simp add: splitNode_splitNodes.keep)
      next
        case False
        with f(4) have "list_ex isHighlightNode frs" by simp
        with f(2,3) show ?thesis by (intro splitNode_splitNodes.split)
      qed
      with Cons True f(1) show ?thesis by simp
    qed
  qed
next
  case (2 ds r cls kids)
  then obtain out ds' r' where "replaceNodes ds r kids = Some (out, ds', r')"
      "pattern r' = pattern r" "splitNodes kids out"
    by blast
  then show ?case by (simp add: splitNode_splitNodes.elem)
next
  case (3 ds r)
  show ?case by (simp add: splitNode_splitNodes.nil)
next
  case (4 ds r n ns)
  from 4(1) [OF 4(3)] obtain a ds1 r1 where a: "replaceNode ds r n = Some (a, ds1, r1)"
      "pattern r1 = pattern r" "splitNode n a"
    by blast
  with 4(3) have "pattern r1 \<noteq> []" by simp
  from 4(2) [OF a(1) refl refl this] obtain b ds2 r2 where
      b: "replaceNodes ds1 r1 ns = Some (b, ds2, r2)" "pattern r2 = pattern r1" "splitNodes ns b"
    by blast
  from a b show ?case by (simp add: splitNode_splitNodes.cons)
qed

lemma split_textContent:
  shows "splitNode n out \<Longrightarrow> concat (map textContent out) = textContent n"
    and "splitNodes ns outs \<Longrightarrow> concat (map textContent outs) = concat (map textContent ns)"
  by (induction rule: splitNode_splitNodes.inducts) simp_all

lemma isFragment_highlights: "isFragment f \<Longrightarrow> \<forall>c\<in>set (highlightsOf f). c = {''search-highlight''}"
  by (cases f) (auto split: list.splits node.splits)

lemma split_fresh:
  shows "splitNode n out \<Longrightarrow> highlightsOf n = [] \<Longrightarrow>
      \<forall>c\<in>set (concat (map highlightsOf out)). c = {''search-highlight''}"
    and "splitNodes ns outs \<Longrightarrow> concat (map highlightsOf ns) = [] \<Longrightarrow>
      \<forall>c\<in>set (concat (map highlightsOf outs)). c = {''search-highlight''}"
proof (induction rule: splitNode_splitNodes.inducts)
  case (keep s)
  show ?case by simp
next
  case (split frs s)
  then show ?case using isFragment_highlights by (auto simp: list_all_iff)
next
  case (elem kids kids' cls)
  then show ?case by (auto split: if_splits)
next
  case nil
  show ?case by simp
next
  case (cons n a ns b)
  then show ?case by auto
qed

subsection \<open>Clearing undoes the replacement on a clean body\<close>

lemma mergeText_texts_aux:
  "\<not> startsWithText rest \<Longrightarrow>
     mergeText (Text p # map Text ps @ rest)
       = (if p @ concat ps = [] then mergeText rest else Text (p @ concat ps) # mergeText rest)"
proof (induction ps arbitrary: p)
  case Nil
  then show ?case
  proof (cases rest)
    case Nil
    then show ?thesis by simp
  next
    case (Cons x xs)
    with Nil.prems show ?thesis by (cases x) simp_all
  qed
next
  case (Cons q ps)
  from Cons.IH [OF Cons.prems, of "p @ q"] show ?case by simp
qed

lemma mergeText_texts:
  assumes "\<not> startsWithText rest"
  shows "mergeText (map Text ps @ rest)
     = (if concat ps = [] then mergeText rest else Text (concat ps) # mergeText rest)"
proof (cases ps)
  case Nil
  then show ?thesis by simp
next
  case (Cons p qs)
  with mergeText_texts_aux [OF assms, of p qs] show ?thesis by simp
qed

lemma mergeText_elem: "\<not> isText n \<Longrightarrow> mergeText (n # rest) = n # mergeText rest"
  by (cases n) simp_all

lemma clean_not_highlight: "cleanNode n \<Longrightarrow> \<not> isHighlightNode n"
  by (cases n) simp_all

lemma mergeText_clean:
  "list_all cleanNode ns \<Longrightarrow> noAdjacentText ns \<Longrightarrow> mergeText ns = ns"
proof (induction ns)
  case Nil
  show ?case by simp
next
  case (Cons n ns)
  then have ih: "mergeText ns = ns" by simp
  show ?case
  proof (cases n)
    case (Text s)
    with Cons.prems have "s \<noteq> []" "\<not> startsWithText ns" by simp_all
    with mergeText_texts [of ns "[s]"] ih Text show ?thesis by simp
  next
    case (Elem cls kids)
    with ih show ?thesis by simp
  qed
qed

lemma normalizeNode_clean: "cleanNode n \<Longrightarrow> normalizeNode n = n"
proof (induction n)
  case (Text s)
  show ?case by simp
next
  case (Elem cls kids)
  then have "map normalizeNode kids = kids"
    by (intro map_idI) (simp add: list_all_iff)
  with Elem.prems show ?case by (simp add: mergeText_clean)
qed

lemma clearNode_clean: "cleanNode n \<Longrightarrow> clearNode n = n"
proof (induction n)
  case (Text s)
  show ?case by simp
next
  case (Elem cls kids)
  then have m: "map clearNode kids = kids"
    by (intro map_idI) (simp add: list_all_iff)
  from Elem.prems have "\<not> list_ex isHighlightNode kids"
    by (auto simp: list_all_iff list_ex_iff dest: clean_not_highlight)
  with m Elem.prems show ?case by simp
qed

lemma fragment_cleared:
  "isFragment f \<Longrightarrow> normalizeNode (clearNode f) = Text (textContent f)"
  by (cases f) (auto simp: isHighlight_def split: list.splits node.splits)

lemma fragments_cleared:
  "list_all isFragment frs \<Longrightarrow>
     map normalizeNode (map clearNode frs) = map Text (map textContent frs)"
  by (induction frs) (simp_all add: fragment_cleared)

lemma startsWithText_append: "xs \<noteq> [] \<Longrightarrow> startsWithText (xs @ ys) = startsWithText xs"
  by (cases xs) simp_all

lemma split_cleared:
  shows "splitNode n g \<Longrightarrow> cleanNode n \<Longrightarrow>
      (\<forall>rest. (isText n \<longrightarrow> \<not> startsWithText rest) \<longrightarrow>
          mergeText (map normalizeNode (map clearNode g) @ rest) = n # mergeText rest)
      \<and> (\<not> list_ex isHighlightNode g \<longrightarrow> map clearNode g = [n])
      \<and> (\<not> isText n \<longrightarrow> \<not> startsWithText (map normalizeNode (map clearNode g)))"
    and "splitNodes ns b \<Longrightarrow> list_all cleanNode ns \<Longrightarrow> noAdjacentText ns \<Longrightarrow>
      mergeText (map normalizeNode (map clearNode b)) = ns
      \<and> (\<not> list_ex isHighlightNode b \<longrightarrow> map clearNode b = ns)
      \<and> (\<not> startsWithText ns \<longrightarrow> \<not> startsWithText (map normalizeNode (map clearNode b)))"
proof (induction rule: splitNode_splitNodes.inducts)
  case (keep s)
  then have "s \<noteq> []" by simp
  then show ?case using mergeText_texts [of _ "[s]"] by simp
next
  case (split frs s)
  from split(4) have ne: "s \<noteq> []" by simp
  have n: "map normalizeNode (map clearNode frs) = map Text (map textContent frs)"
    using split(1) by (rule fragments_cleared)
  have "\<forall>rest. \<not> startsWithText rest \<longrightarrow>
      mergeText (map normalizeNode (map clearNode frs) @ rest) = Text s # mergeText rest"
  proof (intro allI impI)
    fix rest assume r: "\<not> startsWithText rest"
    from split(2) ne have "concat (map textContent frs) \<noteq> []" by simp
    with mergeText_texts [OF r, of "map textContent frs"] split(2)
    have "mergeText (map Text (map textContent frs) @ rest) = Text s # mergeText rest"
      by (simp del: map_map)
    then show "mergeText (map normalizeNode (map clearNode frs) @ rest) = Text s # mergeText rest"
      by (simp only: n)
  qed
  with split(3) show ?case by simp
next
  case (elem kids kids' cls)
  from elem.prems have c: "\<not> isHighlight cls" "list_all cleanNode kids" "noAdjacentText kids"
    by simp_all
  note ih = elem.IH [OF c(2,3)]
  have "clearNode (Elem cls kids') = Elem cls kids"
    using ih c(1) by (cases "list_ex isHighlightNode kids'") simp_all
  moreover have "normalizeNode (Elem cls kids) = Elem cls kids"
    using elem.prems by (rule normalizeNode_clean)
  ultimately show ?case using c(1) by simp
next
  case nil
  show ?case by simp
next
  case (cons n a ns b)
  from cons.prems have c: "cleanNode n" "list_all cleanNode ns" "noAdjacentText ns"
      "isText n \<longrightarrow> \<not> startsWithText ns"
    by simp_all
  note p = cons.IH(1) [OF c(1)]
  note q = cons.IH(2) [OF c(2,3)]
  let ?N = "\<lambda>xs. map normalizeNode (map clearNode xs)"
  from c(4) q have "isText n \<longrightarrow> \<not> startsWithText (?N b)" by blast
  with p have "mergeText (?N a @ ?N b) = n # mergeText (?N b)" by blast
  with q have m: "mergeText (?N (a @ b)) = n # ns" by simp
  from p q have k: "\<not> list_ex isHighlightNode (a @ b) \<longrightarrow> map clearNode (a @ b) = n # ns"
    by simp
  from p have "mergeText (?N a @ []) = n # mergeText []" by (simp del: append_Nil2)
  then have "?N a \<noteq> []" by auto
  then have "startsWithText (?N (a @ b)) = startsWithText (?N a)"
    by (simp add: startsWithText_append)
  with p have s: "\<not> startsWithText (n # ns) \<longrightarrow> \<not> startsWithText (?N (a @ b))" by simp
  from m k s show ?case by blast
qed

lemma clearNodes_split:
  assumes "splitNodes ns b" "cleanBody ns"
  shows "clearNodes b = ns"
  using split_cleared(2) [OF assms(1)] assms(2)
  by (simp add: clearNodes_def cleanBody_def)

lemma clearNodes_clean: "cleanBody ns \<Longrightarrow> clearNodes ns = ns"
proof -
  assume c: "cleanBody ns"
  then have "map clearNode ns = ns"
    by (intro map_idI) (simp add: cleanBody_def list_all_iff clearNode_clean)
  moreover from c have "\<not> list_ex isHighlightNode ns"
    by (auto simp: cleanBody_def list_all_iff list_ex_iff dest: clean_not_highlight)
  ultimately show ?thesis by (simp add: clearNodes_def)
qed

subsection \<open>Facts about the search over the page\<close>

lemma patternLiteral_escapeRegex: "patternLiteral (escapeRegex q) = q"
proof (induction q)
  case Nil
  show ?case by simp
next
  case (Cons c cs)
  show ?case
  proof (cases "regexSpecial c")
    case True
    with Cons show ?thesis by simp
  next
    case False
    then have c: "c \<noteq> CHR 0x5C" by (auto simp: regexSpecial_def)
    show ?thesis
    proof (cases "escapeRegex cs")
      case Nil
      with Cons False show ?thesis by simp
    next
      case (Cons d ds)
      with Cons.IH False c show ?thesis by simp
    qed
  qed
qed

lemma newRegExp_escapeRegex: "newRegExp (escapeRegex q) = \<lparr>pattern = q, lastIndex = 0\<rparr>"
  by (simp add: newRegExp_def patternLiteral_escapeRegex)

lemma regexExec_pattern: "pattern (snd (regexExec r s)) = pattern r"
  by (simp add: regexExec_def split: option.split)

lemma acceptNode_pattern: "pattern (snd (acceptNode r ex s)) = pattern r"
  using regexExec_pattern [of r s]
  by (cases "regexExec r s") (simp add: acceptNode_def regexTest_def)

lemma walkNode_pattern:
  shows "pattern (snd (walkNode r ex n)) = pattern r"
    and "pattern (snd (walkNodes r ex ns)) = pattern r"
proof (induction r ex n and r ex ns rule: walkNode_walkNodes.induct)
  case (1 r ex s)
  show ?case using acceptNode_pattern [of r ex s] by (cases "acceptNode r ex s") simp
next
  case (2 r ex cls kids)
  then show ?case by simp
next
  case (3 r ex)
  show ?case by simp
next
  case (4 r ex n ns)
  obtain a r1 where a: "walkNode r ex n = (a, r1)" by (cases "walkNode r ex n")
  obtain b r2 where b: "walkNodes r1 ex ns = (b, r2)" by (cases "walkNodes r1 ex ns")
  from 4(1) a have "pattern r1 = pattern r" by simp
  moreover from 4(2) [OF a [symmetric]] b have "pattern r2 = pattern r1" by simp
  ultimately show ?case using a b by simp
qed

lemma highlightTextNodes_splits:
  assumes "pattern r \<noteq> []"
  shows "\<exists>out r'. highlightTextNodes ns r = Some (out, r') \<and> pattern r' = pattern r
      \<and> splitNodes ns out"
proof -
  obtain ds r1 where w: "walkNodes r False ns = (ds, r1)" by (cases "walkNodes r False ns")
  with walkNode_pattern(2) [of r False ns] have p1: "pattern r1 = pattern r" by simp
  with assms have "pattern r1 \<noteq> []" by simp
  from replaceNode_splits(2) [OF this, of ds ns]
  obtain out ds' r' where "replaceNodes ds r1 ns = Some (out, ds', r')"
      "pattern r' = pattern r1" "splitNodes ns out"
    by blast
  with w p1 show ?thesis by (simp add: highlightTextNodes_def)
qed

lemma highlightBodies_splits:
  "pattern r \<noteq> [] \<Longrightarrow>
     \<exists>bs' r'. highlightBodies r bs = Some (bs', r') \<and> pattern r' = pattern r
       \<and> list_all2 (\<lambda>b b'. splitNodes (body b) (body b') \<and> b' = b\<lparr>body := body b'\<rparr>) bs bs'"
proof (induction bs arbitrary: r)
  case Nil
  show ?case by simp
next
  case (Cons b bs)
  from highlightTextNodes_splits [OF Cons.prems, of "body b"]
  obtain out r1 where h: "highlightTextNodes (body b) r = Some (out, r1)"
      "pattern r1 = pattern r" "splitNodes (body b) out"
    by blast
  with Cons.prems have "pattern r1 \<noteq> []" by simp
  from Cons.IH [OF this] obtain bs' r2 where t: "highlightBodies r1 bs = Some (bs', r2)"
      "pattern r2 = pattern r1"
      "list_all2 (\<lambda>b b'. splitNodes (body b) (body b') \<and> b' = b\<lparr>body := body b'\<rparr>) bs bs'"
    by blast
  from h t show ?case by simp
qed

text \<open>The bodies after the replacement: text kept, only fresh spans, cleared back.\<close>

lemma split_bodies:
  assumes "list_all2 (\<lambda>b b'. splitNodes (body b) (body b') \<and> b' = b\<lparr>body := body b'\<rparr>) bs bs'"
  shows "map (\<lambda>b. concat (map textContent (body b))) bs'
        = map (\<lambda>b. concat (map textContent (body b))) bs"
    and "pageHighlights bs = [] \<Longrightarrow> \<forall>c\<in>set (pageHighlights bs'). c = {''search-highlight''}"
    and "\<forall>b\<in>set bs. cleanBody (body b) \<Longrightarrow> map (\<lambda>b. clearNodes (body b)) bs' = map body bs"
  using assms
proof (induction bs bs' rule: list_all2_induct)
  case Nil
  { case 1 show ?case by simp }
  { case 2 show ?case by (simp add: pageHighlights_def) }
  { case 3 show ?case by simp }
next
  case (Cons b bs b' bs')
  { case 1
    from Cons show ?case by (simp add: split_textContent(2)) }
  { case 2
    then have "concat (map highlightsOf (body b)) = []" "pageHighlights bs = []"
      by (simp_all add: pageHighlights_Cons bodyHighlights_def)
    with Cons split_fresh(2) [of "body b" "body b'"] show ?case
      by (auto simp: pageHighlights_Cons bodyHighlights_def) }
  { case 3
    with Cons show ?case by (simp add: clearNodes_split) }
qed

lemma performSearch_short:
  "length q < 2 \<Longrightarrow>
     performSearch q p = Some ((clearSearch p)\<lparr>searchTerm := q, resultsCount := ''''\<rparr>)"
  by (simp add: performSearch_def Let_def)

lemma performSearch_long:
  assumes "2 \<le> length q"
  shows "\<exists>bs r p'.
      highlightBodies \<lparr>pattern = q, lastIndex = 0\<rparr> (blocks (clearSearch p)) = Some (bs, r)
      \<and> list_all2 (\<lambda>b b'. splitNodes (body b) (body b') \<and> b' = b\<lparr>body := body b'\<rparr>)
            (blocks (clearSearch p)) bs
      \<and> performSearch q p = Some p'
      \<and> searchMatches p' = [0 ..< length (pageHighlights bs)]
      \<and> currentSearchIndex p' = (if pageHighlights bs = [] then - 1 else 0)
      \<and> blocks p' = (if pageHighlights bs = [] then bs else expandBlock 0 (addCurrent 0 bs))"
proof -
  from assms have "pattern \<lparr>pattern = q, lastIndex = 0\<rparr> \<noteq> []" by auto
  from highlightBodies_splits [OF this, of "blocks (clearSearch p)"]
  obtain bs r where h:
      "highlightBodies \<lparr>pattern = q, lastIndex = 0\<rparr> (blocks (clearSearch p)) = Some (bs, r)"
      "list_all2 (\<lambda>b b'. splitNodes (body b) (body b') \<and> b' = b\<lparr>body := body b'\<rparr>)
         (blocks (clearSearch p)) bs"
    by blast
  have idx: "currentSearchIndex (clearSearch p) = - 1" by (simp add: clearSearch_def)
  show ?thesis
  proof (cases "pageHighlights bs = []")
    case True
    with assms h idx show ?thesis
      by (simp add: performSearch_def Let_def newRegExp_escapeRegex)
  next
    case False
    then have "0 < length (pageHighlights bs)" by simp
    then have "[0 ..< length (pageHighlights bs)] ! 0 = 0" by (simp add: nth_upt del: upt_Suc)
    with assms h False show ?thesis
      by (simp add: performSearch_def Let_def newRegExp_escapeRegex del: upt_Suc)
  qed
qed

lemma bodyText_clearSearch: "map bodyText (blocks (clearSearch p)) = map bodyText (blocks p)"
  by (simp add: clearSearch_def bodyText_def comp_def textContent_clearNodes)

lemma bodies_clearSearch: "map body (blocks (clearSearch p)) = map (\<lambda>b. clearNodes (body b)) (blocks p)"
  by (simp add: clearSearch_def comp_def)

lemma bodyText_bodies: "map body bs = map body bs' \<Longrightarrow> map bodyText bs = map bodyText bs'"
proof -
  assume "map body bs = map body bs'"
  then have "map (\<lambda>k. concat (map textContent k)) (map body bs)
      = map (\<lambda>k. concat (map textContent k)) (map body bs')" by simp
  then show ?thesis by (simp add: bodyText_def [abs_def] comp_def)
qed

lemma bodyText_addCurrent: "map bodyText (addCurrent k bs) = map bodyText bs"
  unfolding addCurrent_def
  by (induction bs arbitrary: k) (simp_all add: bodyText_def textContent_onHighlight(2))

lemma cleared_addCurrent:
  "map (\<lambda>b. clearNodes (body b)) (addCurrent k bs) = map (\<lambda>b. clearNodes (body b)) bs"
  unfolding addCurrent_def by (rule clearNodes_bodies_onMatchBlock [OF pres_insert_current])

lemma cleared_bodies:
  "map body bs = map body bs' \<Longrightarrow>
     map (\<lambda>b. clearNodes (body b)) bs = map (\<lambda>b. clearNodes (body b)) bs'"
proof -
  assume "map body bs = map body bs'"
  then have "map clearNodes (map body bs) = map clearNodes (map body bs')" by simp
  then show ?thesis by (simp add: comp_def)
qed

lemma clean_cleared: "\<forall>b\<in>set bs. cleanBody (body b) \<Longrightarrow> map (\<lambda>b. clearNodes (body b)) bs = map body bs"
  by (simp add: clearNodes_clean)

lemma cleared_removeCurrent:
  "map (\<lambda>b. clearNodes (body b)) (removeCurrent k bs) = map (\<lambda>b. clearNodes (body b)) bs"
  unfolding removeCurrent_def by (rule clearNodes_bodies_onMatchBlock [OF pres_remove_current])

lemma cleared_expandBlock:
  "map (\<lambda>b. clearNodes (body b)) (expandBlock k bs) = map (\<lambda>b. clearNodes (body b)) bs"
  by (rule cleared_bodies) (rule expandBlock_bodies)

lemma tidy_cleared:
  "tidy p \<longleftrightarrow> (\<forall>k\<in>set (map (\<lambda>b. clearNodes (body b)) (blocks p)). cleanBody k)"
  by (simp add: tidy_def list_all_iff)

lemma tidy_same:
  assumes "tidy p"
    and "map (\<lambda>b. clearNodes (body b)) (blocks p') = map (\<lambda>b. clearNodes (body b)) (blocks p)"
  shows "tidy p'"
  using assms unfolding tidy_cleared by (simp only:)

lemma clean_tidy:
  assumes "\<forall>b\<in>set (blocks p). cleanBody (body b)"
  shows "tidy p"
  using assms by (simp add: tidy_def list_all_iff clearNodes_clean)

lemma tidy_clearSearch:
  assumes "tidy p"
  shows "\<forall>b\<in>set (blocks (clearSearch p)). cleanBody (body b)"
  using assms by (simp add: tidy_def list_all_iff clearSearch_def)

text \<open>
  On a tidy page, a search followed by \<open>clearSearch\<close> leaves the bodies that
  \<open>clearSearch\<close> alone leaves, and the page after the search is tidy.
\<close>

lemma search_tidy:
  assumes t: "tidy p" and s: "performSearch q p = Some p'"
  shows "map body (blocks (clearSearch p')) = map body (blocks (clearSearch p))"
    and "tidy p'"
proof -
  note cl = tidy_clearSearch [OF t]
  have again: "map (\<lambda>b. clearNodes (body b)) (blocks (clearSearch p))
      = map body (blocks (clearSearch p))"
    using cl by (rule clean_cleared)
  have c: "map (\<lambda>b. clearNodes (body b)) (blocks p') = map body (blocks (clearSearch p))"
  proof (cases "length q < 2")
    case True
    with s performSearch_short [OF True, of p]
    have "blocks p' = blocks (clearSearch p)" by auto
    with again show ?thesis by simp
  next
    case False
    then have "2 \<le> length q" by simp
    from performSearch_long [OF this, of p] s
    obtain bs where b:
        "list_all2 (\<lambda>b b'. splitNodes (body b) (body b') \<and> b' = b\<lparr>body := body b'\<rparr>)
           (blocks (clearSearch p)) bs"
        "blocks p' = (if pageHighlights bs = [] then bs else expandBlock 0 (addCurrent 0 bs))"
      by auto
    from b(2) have "map (\<lambda>b. clearNodes (body b)) (blocks p') = map (\<lambda>b. clearNodes (body b)) bs"
      by (simp add: cleared_expandBlock cleared_addCurrent)
    also have "\<dots> = map body (blocks (clearSearch p))"
      using cl by (rule split_bodies(3) [OF b(1)])
    finally show ?thesis .
  qed
  then show "map body (blocks (clearSearch p')) = map body (blocks (clearSearch p))"
    by (simp only: bodies_clearSearch [of p'])
  have "map (\<lambda>b. clearNodes (body b)) (blocks p') = map (\<lambda>b. clearNodes (body b)) (blocks p)"
    using c by (simp only: bodies_clearSearch [of p])
  with t show "tidy p'" by (rule tidy_same)
qed

text \<open>
  Claim C3. For every page and every query \<open>performSearch\<close> returns; the text of every
  body is the same after the search, and the same again after \<open>clearSearch\<close>, which
  leaves no highlight element. The fragments that take the place of a text node spell
  its text. When the bodies were clean before the search (as the parser leaves them: no
  highlight element, no empty text node, no two text nodes side by side), the bodies
  after search and clear are the very trees they were. More generally, on a tidy page
  (one with clean bodies, or one that searches have made of it) search and clear leave
  the bodies that clear alone leaves, and the page after the search is tidy again.
\<close>

theorem search_clear_roundtrip:
  "\<exists>p'. performSearch q p = Some p'
     \<and> map bodyText (blocks p') = map bodyText (blocks p)
     \<and> map bodyText (blocks (clearSearch p')) = map bodyText (blocks p)
     \<and> pageHighlights (blocks (clearSearch p')) = []
     \<and> ((\<forall>b\<in>set (blocks p). cleanBody (body b)) \<longrightarrow>
          map body (blocks (clearSearch p')) = map body (blocks p))
     \<and> (tidy p \<longrightarrow>
          tidy p' \<and> map body (blocks (clearSearch p')) = map body (blocks (clearSearch p)))
     \<and> (\<forall>(r::regex) s. pattern r = q \<and> 2 \<le> length q \<longrightarrow>
          (\<exists>frs r'. highlightNode r s = Some (frs, r') \<and> concat (map textContent frs) = s))"
proof -
  have frag: "\<forall>(r::regex) s. pattern r = q \<and> 2 \<le> length q \<longrightarrow>
      (\<exists>frs r'. highlightNode r s = Some (frs, r') \<and> concat (map textContent frs) = s)"
  proof (intro allI impI)
    fix r :: regex and s assume "pattern r = q \<and> 2 \<le> length q"
    then have "pattern r \<noteq> []" by auto
    from highlightNode_returns [OF this, of s]
    show "\<exists>frs r'. highlightNode r s = Some (frs, r') \<and> concat (map textContent frs) = s"
      by blast
  qed
  obtain p' where r: "performSearch q p = Some p'"
    and t: "map bodyText (blocks p') = map bodyText (blocks p)"
  proof (cases "length q < 2")
    case True
    let ?p = "(clearSearch p)\<lparr>searchTerm := q, resultsCount := ''''\<rparr>"
    have "performSearch q p = Some ?p" using True by (rule performSearch_short)
    moreover have "map bodyText (blocks ?p) = map bodyText (blocks p)"
      by (simp add: bodyText_clearSearch)
    ultimately show ?thesis by (rule that)
  next
    case False
    then have "2 \<le> length q" by simp
    from performSearch_long [OF this, of p]
    obtain bs r p' where s:
        "list_all2 (\<lambda>b b'. splitNodes (body b) (body b') \<and> b' = b\<lparr>body := body b'\<rparr>)
           (blocks (clearSearch p)) bs"
        "performSearch q p = Some p'"
        "blocks p' = (if pageHighlights bs = [] then bs else expandBlock 0 (addCurrent 0 bs))"
      by blast
    have bb: "map body (blocks p') = map body (if pageHighlights bs = [] then bs else addCurrent 0 bs)"
      using s(3) by (simp add: expandBlock_bodies)
    have tb: "map bodyText bs = map bodyText (blocks p)"
      using split_bodies(1) [OF s(1)]
      by (simp add: bodyText_def [abs_def] bodyText_clearSearch [unfolded bodyText_def [abs_def]])
    have "map bodyText (blocks p') = map bodyText (blocks p)"
      using bodyText_bodies [OF bb] tb by (simp add: bodyText_addCurrent)
    with s(2) show ?thesis by (rule that)
  qed
  have t2: "map bodyText (blocks (clearSearch p')) = map bodyText (blocks p)"
    by (simp only: bodyText_clearSearch t)
  have h: "pageHighlights (blocks (clearSearch p')) = []"
    by (rule pageHighlights_clearSearch)
  have ti: "tidy p \<longrightarrow>
      tidy p' \<and> map body (blocks (clearSearch p')) = map body (blocks (clearSearch p))"
    using search_tidy [OF _ r] by blast
  have c: "(\<forall>b\<in>set (blocks p). cleanBody (body b)) \<longrightarrow>
      map body (blocks (clearSearch p')) = map body (blocks p)"
  proof
    assume cl: "\<forall>b\<in>set (blocks p). cleanBody (body b)"
    then have "tidy p" by (rule clean_tidy)
    with ti have "map body (blocks (clearSearch p')) = map body (blocks (clearSearch p))" by blast
    also have "\<dots> = map body (blocks p)"
      using cl by (simp only: bodies_clearSearch clean_cleared)
    finally show "map body (blocks (clearSearch p')) = map body (blocks p)" .
  qed
  from r t t2 h c ti frag show ?thesis by blast
qed

subsection \<open>Facts about navigation and the search state\<close>

lemma wrapIndex_range: "0 < n \<Longrightarrow> 0 \<le> wrapIndex n i d \<and> wrapIndex n i d < n"
  by (simp add: wrapIndex_def Let_def)

lemma wrapIndex_forward: "0 \<le> i \<Longrightarrow> i < n \<Longrightarrow> wrapIndex n i 1 = (i + 1) mod n"
proof -
  assume i: "0 \<le> i" "i < n"
  show ?thesis
  proof (cases "i + 1 = n")
    case True
    with i show ?thesis by (simp add: wrapIndex_def Let_def)
  next
    case False
    with i have "i + 1 < n" by simp
    with i show ?thesis by (simp add: wrapIndex_def Let_def)
  qed
qed

lemma wrapIndex_backward: "0 \<le> i \<Longrightarrow> i < n \<Longrightarrow> wrapIndex n i (- 1) = (i - 1) mod n"
proof -
  assume i: "0 \<le> i" "i < n"
  show ?thesis
  proof (cases "i = 0")
    case True
    with i have "(- 1) mod n = n - 1" by (simp add: zmod_minus1)
    with True i show ?thesis by (simp add: wrapIndex_def Let_def)
  next
    case False
    with i show ?thesis by (simp add: wrapIndex_def Let_def)
  qed
qed

lemma navigateSearch_none: "searchMatches p = [] \<Longrightarrow> navigateSearch d p = p"
  by (simp add: navigateSearch_def)

lemma navigateSearch_fields:
  assumes "searchMatches p \<noteq> []"
  shows "searchMatches (navigateSearch d p) = searchMatches p"
    and "currentSearchIndex (navigateSearch d p)
       = wrapIndex (int (length (searchMatches p))) (currentSearchIndex p) d"
    and "resultsCount (navigateSearch d p)
       = numberToString (currentSearchIndex (navigateSearch d p) + 1) @ '' / ''
           @ numberToString (int (length (searchMatches p))) @ '' matches''"
  using assms by (simp_all add: navigateSearch_def Let_def wrapIndex_def)

lemma navigateSearch_blocks:
  assumes "searchMatches p \<noteq> []"
    and "0 \<le> currentSearchIndex p" "currentSearchIndex p < int (length (searchMatches p))"
  shows "blocks (navigateSearch d p)
     = expandBlock (searchMatches p ! nat (currentSearchIndex (navigateSearch d p)))
         (addCurrent (searchMatches p ! nat (currentSearchIndex (navigateSearch d p)))
            (removeCurrent (searchMatches p ! nat (currentSearchIndex p)) (blocks p)))"
  using assms by (simp add: navigateSearch_def Let_def wrapIndex_def)

lemma navigate_step:
  assumes m: "marked_page p bs"
  shows "marked_page (navigateSearch d p) bs"
    and "currentSearchIndex (navigateSearch d p)
       = wrapIndex (int (length (pageHighlights bs))) (currentSearchIndex p) d"
proof -
  let ?N = "length (pageHighlights bs)"
  let ?i = "currentSearchIndex p"
  let ?p = "navigateSearch d p"
  let ?j = "currentSearchIndex ?p"
  from m have sm: "searchMatches p = [0 ..< ?N]" and i: "0 \<le> ?i" "?i < int ?N"
    and un: "\<forall>j < ?N. ''current'' \<notin> pageHighlights bs ! j"
    and bd: "map body (blocks p) = map body (addCurrent (nat ?i) bs)"
    by (simp_all add: marked_page_def)
  from i have pos: "0 < int ?N" by arith
  then have nz: "pageHighlights bs \<noteq> []" by simp
  with sm have ne: "searchMatches p \<noteq> []" by simp
  have len: "int (length (searchMatches p)) = int ?N" using sm by simp
  note f = navigateSearch_fields [OF ne, of d]
  have j: "?j = wrapIndex (int ?N) ?i d" using f(2) len by simp
  with pos wrapIndex_range [of "int ?N" ?i d] have jr: "0 \<le> ?j" "?j < int ?N" by simp_all
  have ni: "nat ?i < ?N" using i by simp
  have nj: "nat ?j < ?N" using jr by simp
  have mi: "searchMatches p ! nat ?i = nat ?i" using sm ni by simp
  have mj: "searchMatches p ! nat ?j = nat ?j" using sm nj by simp
  have "blocks ?p = expandBlock (nat ?j) (addCurrent (nat ?j) (removeCurrent (nat ?i) (blocks p)))"
    using navigateSearch_blocks [of p d] ne i len mi mj by simp
  then have "map body (blocks ?p) = map body (addCurrent (nat ?j) (removeCurrent (nat ?i) (blocks p)))"
    by (simp add: expandBlock_bodies)
  also have "\<dots> = map body (addCurrent (nat ?j) (removeCurrent (nat ?i) (addCurrent (nat ?i) bs)))"
    by (intro addCurrent_bodies removeCurrent_bodies bd)
  also have "removeCurrent (nat ?i) (addCurrent (nat ?i) bs) = bs"
    using ni un by (intro removeCurrent_addCurrent) simp_all
  finally have b: "map body (blocks ?p) = map body (addCurrent (nat ?j) bs)" .
  from f(1) sm jr un b show "marked_page ?p bs" by (simp add: marked_page_def)
  from j show "?j = wrapIndex (int ?N) ?i d" .
qed

lemma marked_page_inv:
  assumes m: "marked_page p bs"
  shows "search_inv p"
proof -
  let ?N = "length (pageHighlights bs)"
  let ?i = "currentSearchIndex p"
  from m have sm: "searchMatches p = [0 ..< ?N]" and i: "0 \<le> ?i" "?i < int ?N"
    and un: "\<forall>j < ?N. ''current'' \<notin> pageHighlights bs ! j"
    and bd: "map body (blocks p) = map body (addCurrent (nat ?i) bs)"
    by (simp_all add: marked_page_def)
  have hs: "pageHighlights (blocks p)
      = (pageHighlights bs)[nat ?i := insert ''current'' (pageHighlights bs ! nat ?i)]"
    using pageHighlights_bodies [OF bd] by (simp add: pageHighlights_addCurrent)
  have each: "\<forall>k < length (searchMatches p).
      searchMatches p ! k < length (pageHighlights (blocks p))
      \<and> (''current'' \<in> pageHighlights (blocks p) ! (searchMatches p ! k) \<longleftrightarrow> int k = ?i)"
  proof (intro allI impI)
    fix k assume "k < length (searchMatches p)"
    with sm have k: "k < ?N" "searchMatches p ! k = k" by simp_all
    show "searchMatches p ! k < length (pageHighlights (blocks p))
      \<and> (''current'' \<in> pageHighlights (blocks p) ! (searchMatches p ! k) \<longleftrightarrow> int k = ?i)"
    proof (cases "k = nat ?i")
      case True
      with k i show ?thesis by (simp add: hs)
    next
      case False
      with k i un show ?thesis by (auto simp: hs)
    qed
  qed
  from i have "0 < int ?N" by arith
  then have "pageHighlights bs \<noteq> []" by simp
  then have "searchMatches p \<noteq> []" using sm by simp
  moreover from i have "?i \<noteq> - 1" by simp
  ultimately show ?thesis using i sm each
    by (simp only: search_inv_def length_upt) simp
qed

lemma marked_page_matches: "marked_page p bs \<Longrightarrow> searchMatches p \<noteq> []"
proof -
  assume m: "marked_page p bs"
  then have i: "0 \<le> currentSearchIndex p"
      "currentSearchIndex p < int (length (pageHighlights bs))"
    and sm: "searchMatches p = [0 ..< length (pageHighlights bs)]"
    by (simp_all add: marked_page_def)
  from i have "0 < int (length (pageHighlights bs))" by arith
  then have "pageHighlights bs \<noteq> []" by simp
  with sm show ?thesis by simp
qed

lemma search_ok_none:
  assumes "search_ok p" "searchMatches p = []"
  shows "currentSearchIndex p = - 1"
proof (rule ccontr)
  assume "currentSearchIndex p \<noteq> - 1"
  with assms obtain bs where "marked_page p bs" unfolding search_ok_def by blast
  with assms(2) marked_page_matches show False by blast
qed

lemma search_ok_inv:
  assumes "search_ok p"
  shows "search_inv p"
proof (cases "searchMatches p = [] \<and> currentSearchIndex p = - 1")
  case True
  then show ?thesis by (simp add: search_inv_def)
next
  case False
  with assms obtain bs where "marked_page p bs" unfolding search_ok_def by blast
  then show ?thesis by (rule marked_page_inv)
qed

lemma applyFilters_bodies: "map body (blocks (applyFilters p)) = map body (blocks p)"
  by (simp add: applyFilters_def Let_def comp_def split: block_kind.split)

lemma updateFilters_search:
  "searchMatches (fst (updateFilters reflow p v)) = searchMatches p
   \<and> currentSearchIndex (fst (updateFilters reflow p v)) = currentSearchIndex p
   \<and> map body (blocks (fst (updateFilters reflow p v))) = map body (blocks p)"
proof -
  have "searchMatches (fst (restoreAnchor a q w)) = searchMatches q
      \<and> currentSearchIndex (fst (restoreAnchor a q w)) = currentSearchIndex q" for a q w
    by (simp add: restoreAnchor_def Let_def split: option.split)
  moreover have "searchMatches (applyFilters p) = searchMatches p
      \<and> currentSearchIndex (applyFilters p) = currentSearchIndex p"
    by (simp add: applyFilters_def Let_def)
  ultimately show ?thesis
    by (simp add: updateFilters_def Let_def restoreAnchor_page applyFilters_bodies)
qed

lemma performSearch_ok:
  assumes "performSearch q p = Some p'"
  shows "search_ok p'"
proof (cases "length q < 2")
  case True
  with assms performSearch_short [OF True, of p]
  have "p' = (clearSearch p)\<lparr>searchTerm := q, resultsCount := ''''\<rparr>" by simp
  then have "searchMatches p' = [] \<and> currentSearchIndex p' = - 1"
    by (simp add: clearSearch_def)
  then show ?thesis unfolding search_ok_def by (rule disjI1)
next
  case False
  then have "2 \<le> length q" by simp
  from performSearch_long [OF this, of p] assms
  obtain bs where s:
      "list_all2 (\<lambda>b b'. splitNodes (body b) (body b') \<and> b' = b\<lparr>body := body b'\<rparr>)
         (blocks (clearSearch p)) bs"
      "searchMatches p' = [0 ..< length (pageHighlights bs)]"
      "currentSearchIndex p' = (if pageHighlights bs = [] then - 1 else 0)"
      "blocks p' = (if pageHighlights bs = [] then bs else expandBlock 0 (addCurrent 0 bs))"
    by auto
  show ?thesis
  proof (cases "pageHighlights bs = []")
    case True
    with s have "searchMatches p' = [] \<and> currentSearchIndex p' = - 1" by simp
    then show ?thesis unfolding search_ok_def by (rule disjI1)
  next
    case False
    have fresh: "\<forall>c\<in>set (pageHighlights bs). c = {''search-highlight''}"
      using split_bodies(2) [OF s(1)] by (simp add: pageHighlights_clearSearch)
    have "\<forall>j < length (pageHighlights bs). ''current'' \<notin> pageHighlights bs ! j"
    proof (intro allI impI)
      fix j assume "j < length (pageHighlights bs)"
      then have "pageHighlights bs ! j \<in> set (pageHighlights bs)" by simp
      with fresh have "pageHighlights bs ! j = {''search-highlight''}" by blast
      then show "''current'' \<notin> pageHighlights bs ! j" by simp
    qed
    with s False have "marked_page p' bs"
      by (simp add: marked_page_def expandBlock_bodies)
    then show ?thesis unfolding search_ok_def by blast
  qed
qed

lemma marked_page_bodies:
  assumes "marked_page p bs"
    and "searchMatches p' = searchMatches p" "currentSearchIndex p' = currentSearchIndex p"
    and "map body (blocks p') = map body (blocks p)"
  shows "marked_page p' bs"
  using assms by (simp add: marked_page_def)

lemma clearSearch_ok: "search_ok (clearSearch p)"
proof -
  have "searchMatches (clearSearch p) = [] \<and> currentSearchIndex (clearSearch p) = - 1"
    by (simp add: clearSearch_def)
  then show ?thesis unfolding search_ok_def by (rule disjI1)
qed

lemma navigateSearch_ok:
  assumes "search_ok p"
  shows "search_ok (navigateSearch d p)"
proof (cases "searchMatches p = []")
  case True
  then have "navigateSearch d p = p" by (rule navigateSearch_none)
  with assms show ?thesis by (simp only:)
next
  case False
  with assms obtain bs where "marked_page p bs" unfolding search_ok_def by blast
  then have "marked_page (navigateSearch d p) bs" by (rule navigate_step(1))
  then show ?thesis unfolding search_ok_def by blast
qed

lemma updateFilters_ok:
  assumes "search_ok p"
  shows "search_ok (fst (updateFilters reflow p v))"
proof (cases "searchMatches p = []")
  case True
  with assms have "currentSearchIndex p = - 1" by (intro search_ok_none)
  with True updateFilters_search [of reflow p v]
  have "searchMatches (fst (updateFilters reflow p v)) = []
      \<and> currentSearchIndex (fst (updateFilters reflow p v)) = - 1"
    by (simp only:)
  then show ?thesis unfolding search_ok_def by (rule disjI1)
next
  case False
  with assms obtain bs where m: "marked_page p bs" unfolding search_ok_def by blast
  note u = updateFilters_search [of reflow p v]
  from m have "marked_page (fst (updateFilters reflow p v)) bs"
  proof (rule marked_page_bodies)
    show "searchMatches (fst (updateFilters reflow p v)) = searchMatches p" using u by (rule conjunct1)
    show "currentSearchIndex (fst (updateFilters reflow p v)) = currentSearchIndex p"
      using u by blast
    show "map body (blocks (fst (updateFilters reflow p v))) = map body (blocks p)"
      using u by blast
  qed
  then show ?thesis unfolding search_ok_def by blast
qed

lemma search_ok_same:
  assumes ok: "search_ok p"
    and m: "searchMatches p' = searchMatches p"
    and c: "currentSearchIndex p' = currentSearchIndex p"
    and b: "map body (blocks p') = map body (blocks p)"
  shows "search_ok p'"
proof (cases "searchMatches p = []")
  case True
  with ok have "currentSearchIndex p = - 1" by (intro search_ok_none)
  with True m c have "searchMatches p' = [] \<and> currentSearchIndex p' = - 1" by (simp only:)
  then show ?thesis unfolding search_ok_def by (rule disjI1)
next
  case False
  with ok obtain bs where "marked_page p bs" unfolding search_ok_def by blast
  then have "marked_page p' bs" using m c b by (rule marked_page_bodies)
  then show ?thesis unfolding search_ok_def by blast
qed

text \<open>
  The click handlers write buttons, flags and the class \<open>collapsed\<close>; the matches, the
  index and the bodies are as they were.
\<close>

lemma clickFilterBtn_search:
  "searchMatches (fst (clickFilterBtn reflow i p v)) = searchMatches p
   \<and> currentSearchIndex (fst (clickFilterBtn reflow i p v)) = currentSearchIndex p
   \<and> map body (blocks (fst (clickFilterBtn reflow i p v))) = map body (blocks p)"
proof (cases "i < length (buttons p)")
  case True
  let ?p = "p\<lparr>buttons := (buttons p)[i := (buttons p ! i)\<lparr>btn_active :=
                   \<not> btn_active (buttons p ! i)\<rparr>]\<rparr>"
  from True have "clickFilterBtn reflow i p v = updateFilters reflow ?p v"
    by (simp add: clickFilterBtn_def)
  with updateFilters_search [of reflow ?p v] show ?thesis by simp
next
  case False
  then show ?thesis by (simp add: clickFilterBtn_def)
qed

lemma clickShowAll_search:
  "searchMatches (fst (clickShowAll reflow p v)) = searchMatches p
   \<and> currentSearchIndex (fst (clickShowAll reflow p v)) = currentSearchIndex p
   \<and> map body (blocks (fst (clickShowAll reflow p v))) = map body (blocks p)"
proof -
  let ?p = "p\<lparr>norwayFilterActive := False, norway_btn_active := False,
          buttons := map (\<lambda>b. b\<lparr>btn_active := True\<rparr>) (buttons p)\<rparr>"
  have "clickShowAll reflow p v = updateFilters reflow ?p v" by (simp add: clickShowAll_def)
  with updateFilters_search [of reflow ?p v] show ?thesis by simp
qed

lemma clickNorwayRelevant_search:
  "searchMatches (fst (clickNorwayRelevant reflow p v)) = searchMatches p
   \<and> currentSearchIndex (fst (clickNorwayRelevant reflow p v)) = currentSearchIndex p
   \<and> map body (blocks (fst (clickNorwayRelevant reflow p v))) = map body (blocks p)"
proof (cases "norwayFilterActive p")
  case True
  let ?p = "p\<lparr>norwayFilterActive := False, norway_btn_active := False,
               buttons := map (\<lambda>b. b\<lparr>btn_active := True\<rparr>) (buttons p)\<rparr>"
  from True have "clickNorwayRelevant reflow p v = updateFilters reflow ?p v"
    by (simp add: clickNorwayRelevant_def)
  with updateFilters_search [of reflow ?p v] show ?thesis by simp
next
  case False
  let ?p = "p\<lparr>norwayFilterActive := True, norway_btn_active := True,
               buttons := map (\<lambda>b. b\<lparr>btn_active := (btn_dac b \<in> set NORWAY_RELEVANT)\<rparr>)
                            (buttons p)\<rparr>"
  from False have "clickNorwayRelevant reflow p v = updateFilters reflow ?p v"
    by (simp add: clickNorwayRelevant_def)
  with updateFilters_search [of reflow ?p v] show ?thesis by simp
qed

lemma clickHeader_search:
  "searchMatches (clickHeader i p) = searchMatches p
   \<and> currentSearchIndex (clickHeader i p) = currentSearchIndex p
   \<and> map body (blocks (clickHeader i p)) = map body (blocks p)"
proof (cases "i < length (blocks p)")
  case True
  have "map body ((blocks p)[i := (blocks p ! i)\<lparr>collapsed := \<not> collapsed (blocks p ! i)\<rparr>])
      = (map body (blocks p))[i := body (blocks p ! i)]"
    by (simp add: map_update)
  also have "\<dots> = map body (blocks p)"
    using True by (metis list_update_id map_update)
  finally show ?thesis using True by (simp add: clickHeader_def)
next
  case False
  then show ?thesis by (simp add: clickHeader_def)
qed

lemma clickExpandAll_search:
  "searchMatches (clickExpandAll p) = searchMatches p
   \<and> currentSearchIndex (clickExpandAll p) = currentSearchIndex p
   \<and> map body (blocks (clickExpandAll p)) = map body (blocks p)"
  by (simp add: clickExpandAll_def comp_def)

lemma clickCollapseAll_search:
  "searchMatches (clickCollapseAll p) = searchMatches p
   \<and> currentSearchIndex (clickCollapseAll p) = currentSearchIndex p
   \<and> map body (blocks (clickCollapseAll p)) = map body (blocks p)"
  by (simp add: clickCollapseAll_def comp_def)

lemma search_ok_kept:
  assumes ok: "search_ok p"
    and s: "searchMatches p' = searchMatches p
      \<and> currentSearchIndex p' = currentSearchIndex p
      \<and> map body (blocks p') = map body (blocks p)"
  shows "search_ok p'"
proof -
  from s have m: "searchMatches p' = searchMatches p" by (rule conjunct1)
  from s have c: "currentSearchIndex p' = currentSearchIndex p" by blast
  from s have b: "map body (blocks p') = map body (blocks p)" by blast
  from ok m c b show ?thesis by (rule search_ok_same)
qed

lemma reachable_ok: "reachable p \<Longrightarrow> search_ok p"
proof (induction rule: reachable.induct)
  case (start p)
  then show ?case unfolding search_ok_def by blast
next
  case (search p q p')
  from search.hyps(2) show ?case by (rule performSearch_ok)
next
  case (clear p)
  show ?case by (rule clearSearch_ok)
next
  case (navigate p d)
  from navigate.IH show ?case by (rule navigateSearch_ok)
next
  case (filter p reflow v)
  from filter.IH show ?case by (rule updateFilters_ok)
next
  case (toggle p reflow i v)
  from toggle.IH show ?case by (rule search_ok_kept) (rule clickFilterBtn_search)
next
  case (showAll p reflow v)
  from showAll.IH show ?case by (rule search_ok_kept) (rule clickShowAll_search)
next
  case (norway p reflow v)
  from norway.IH show ?case by (rule search_ok_kept) (rule clickNorwayRelevant_search)
next
  case (header p i)
  from header.IH show ?case by (rule search_ok_kept) (rule clickHeader_search)
next
  case (expandAll p)
  from expandAll.IH show ?case by (rule search_ok_kept) (rule clickExpandAll_search)
next
  case (collapseAll p)
  from collapseAll.IH show ?case by (rule search_ok_kept) (rule clickCollapseAll_search)
qed

subsection \<open>Tidy pages stay tidy\<close>

lemma tidy_kept:
  assumes "tidy p" and "map body (blocks p') = map body (blocks p)"
  shows "tidy p'"
  using assms(1) by (rule tidy_same) (rule cleared_bodies [OF assms(2)])

lemma tidy_clearSearch_page: "tidy p \<Longrightarrow> tidy (clearSearch p)"
  by (rule clean_tidy) (rule tidy_clearSearch)

lemma tidy_navigateSearch:
  assumes "tidy p"
  shows "tidy (navigateSearch d p)"
proof (cases "searchMatches p = []")
  case True
  then have "navigateSearch d p = p" by (rule navigateSearch_none)
  with assms show ?thesis by (simp only:)
next
  case False
  have "map (\<lambda>b. clearNodes (body b)) (blocks (navigateSearch d p))
      = map (\<lambda>b. clearNodes (body b)) (blocks p)"
    using False
    by (simp add: navigateSearch_def Let_def cleared_expandBlock cleared_addCurrent
        cleared_removeCurrent)
  with assms show ?thesis by (rule tidy_same)
qed

lemma tidy_updateFilters: "tidy p \<Longrightarrow> tidy (fst (updateFilters reflow p v))"
  by (erule tidy_kept) (simp add: updateFilters_search)

lemma tidy_handlers:
  assumes "tidy p"
  shows "tidy (fst (clickFilterBtn reflow i p v))"
    and "tidy (fst (clickShowAll reflow p v))"
    and "tidy (fst (clickNorwayRelevant reflow p v))"
    and "tidy (clickHeader i p)"
    and "tidy (clickExpandAll p)"
    and "tidy (clickCollapseAll p)"
  using assms
  by (auto elim!: tidy_kept simp: clickFilterBtn_search clickShowAll_search
      clickNorwayRelevant_search clickHeader_search clickExpandAll_search
      clickCollapseAll_search)

subsection \<open>The claims about the search engine\<close>

lemma search_page_clean: "list_all (\<lambda>b. cleanBody (body b)) (blocks search_page)"
  by code_simp

lemma search_page_start: "searchMatches search_page = [] \<and> currentSearchIndex search_page = - 1"
  by (simp add: search_page_def demo_page_def)

text \<open>
  The theorem of claim C3 on \<open>search_page\<close> and the query \<open>rate\<close>: the bodies are
  clean and the page is tidy, the search returns a tidy page, and after \<open>clearSearch\<close>
  the bodies are the trees they were; the fragments of the text node \<open>the rate\<close> spell
  it.
\<close>

theorem search_clear_roundtrip_witness:
  "list_all (\<lambda>b. cleanBody (body b)) (blocks search_page)
   \<and> tidy search_page
   \<and> (\<exists>p'. performSearch ''rate'' search_page = Some p'
         \<and> map bodyText (blocks p') = map bodyText (blocks search_page)
         \<and> tidy p'
         \<and> map body (blocks (clearSearch p')) = map body (blocks search_page))
   \<and> (\<exists>frs r'. highlightNode \<lparr>pattern = ''rate'', lastIndex = 0\<rparr> ''the rate'' = Some (frs, r')
         \<and> concat (map textContent frs) = ''the rate'')"
proof -
  have c: "\<forall>b\<in>set (blocks search_page). cleanBody (body b)"
    using search_page_clean by (simp add: list_all_iff)
  then have t: "tidy search_page" by (rule clean_tidy)
  have l: "pattern \<lparr>pattern = ''rate'', lastIndex = 0\<rparr> = ''rate'' \<and> 2 \<le> length ''rate''"
    by simp
  from search_clear_roundtrip [of "''rate''" search_page] c t l search_page_clean
  show ?thesis by blast
qed

text \<open>
  Claim C8. For a query of fewer than two characters \<open>performSearch\<close> returns; the match
  list is empty, the current index is \<open>-1\<close>, the result text is empty, and the blocks
  are those that \<open>clearSearch\<close> leaves: no body is scanned, no highlight element
  exists, and clean bodies are unchanged.
\<close>

theorem performSearch_short_query:
  assumes "length q < 2"
  shows "\<exists>p'. performSearch q p = Some p'
     \<and> searchMatches p' = [] \<and> currentSearchIndex p' = - 1
     \<and> resultsCount p' = '''' \<and> searchTerm p' = q
     \<and> blocks p' = blocks (clearSearch p)
     \<and> pageHighlights (blocks p') = []
     \<and> ((\<forall>b\<in>set (blocks p). cleanBody (body b)) \<longrightarrow> map body (blocks p') = map body (blocks p))"
proof -
  let ?p = "(clearSearch p)\<lparr>searchTerm := q, resultsCount := ''''\<rparr>"
  have r: "performSearch q p = Some ?p" using assms by (rule performSearch_short)
  have f: "searchMatches ?p = [] \<and> currentSearchIndex ?p = - 1
      \<and> resultsCount ?p = '''' \<and> searchTerm ?p = q \<and> blocks ?p = blocks (clearSearch p)"
    by (simp add: clearSearch_def)
  have h: "pageHighlights (blocks ?p) = []" by (simp add: pageHighlights_clearSearch)
  have c: "(\<forall>b\<in>set (blocks p). cleanBody (body b)) \<longrightarrow> map body (blocks ?p) = map body (blocks p)"
  proof
    assume "\<forall>b\<in>set (blocks p). cleanBody (body b)"
    then have "map (\<lambda>b. clearNodes (body b)) (blocks p) = map body (blocks p)"
      by (rule clean_cleared)
    then show "map body (blocks ?p) = map body (blocks p)"
      by (simp add: bodies_clearSearch)
  qed
  from r f h c show ?thesis by blast
qed

text \<open>The theorem on \<open>search_page\<close> and the one-letter query \<open>r\<close>.\<close>

theorem performSearch_short_query_witness:
  "length ''r'' < 2
   \<and> list_all (\<lambda>b. cleanBody (body b)) (blocks search_page)
   \<and> (\<exists>p'. performSearch ''r'' search_page = Some p'
         \<and> searchMatches p' = [] \<and> currentSearchIndex p' = - 1
         \<and> map body (blocks p') = map body (blocks search_page))"
proof -
  have s: "length ''r'' < 2" by simp
  have c: "\<forall>b\<in>set (blocks search_page). cleanBody (body b)"
    using search_page_clean by (simp add: list_all_iff)
  from performSearch_short_query [OF s, of search_page] c s search_page_clean
  show ?thesis by blast
qed

text \<open>
  Claim C4 fails on the code. The body of the article of \<open>search_page\<close> is
  \<open><p><i>tax</i> tax rate</p>\<close> and the query is \<open>tax\<close>. The walker's filter calls
  \<open>regex.test\<close> on the one global expression: the match in the first text node leaves
  \<open>lastIndex\<close> at 3, so the test of the next text node starts at its index 3, finds
  nothing and rejects the node. One occurrence is wrapped and one match is counted; the
  occurrence in \<open>tax rate\<close> stays plain text.
\<close>

theorem performSearch_misses_occurrence:
  "map_option (\<lambda>p. (map body (blocks p), searchMatches p, currentSearchIndex p, resultsCount p))
     (performSearch ''tax'' search_page)
   = Some ([[Elem {} [Elem {} [Elem {''current'', ''search-highlight''} [Text ''tax'']],
                      Text '' tax rate'']],
            [Elem {''dac-provenance-marker''} [Text ''rate M1''],
             Elem {} [Text ''the rate shall be 10% the rate'']]],
           [0], 0, ''1 match found (Enter to navigate)'')"
  by code_simp

text \<open>
  The filter's two calls on that paragraph: the first test succeeds and moves
  \<open>lastIndex\<close>; the second, on a text that holds the query at index 1, fails.
\<close>

lemma regexTest_stale_lastIndex:
  "regexTest \<lparr>pattern = ''tax'', lastIndex = 0\<rparr> ''tax'' = (True, \<lparr>pattern = ''tax'', lastIndex = 3\<rparr>)
   \<and> matchAt ''tax'' '' tax rate'' 1
   \<and> regexTest \<lparr>pattern = ''tax'', lastIndex = 3\<rparr> '' tax rate''
       = (False, \<lparr>pattern = ''tax'', lastIndex = 0\<rparr>)"
  by code_simp

text \<open>
  What does hold of the walk: text below an element of the excluded classes is never
  collected, so it is never wrapped.
\<close>

lemma walk_excluded:
  shows "fst (walkNode r True n) = replicate (length (fst (walkNode r True n))) False
      \<and> snd (walkNode r True n) = r"
    and "fst (walkNodes r True ns) = replicate (length (fst (walkNodes r True ns))) False
      \<and> snd (walkNodes r True ns) = r"
proof (induction r "True" n and r "True" ns rule: walkNode_walkNodes.induct)
  case (1 r s)
  show ?case by (simp add: acceptNode_def)
next
  case (2 r cls kids)
  then show ?case by simp
next
  case (3 r)
  show ?case by simp
next
  case (4 r n ns)
  obtain a r1 where a: "walkNode r True n = (a, r1)" by (cases "walkNode r True n")
  obtain b r2 where b: "walkNodes r1 True ns = (b, r2)" by (cases "walkNodes r1 True ns")
  from 4(1) a have a': "a = replicate (length a) False" "r1 = r" by simp_all
  from 4(2) [OF a [symmetric]] b have b': "b = replicate (length b) False" "r2 = r1" by simp_all
  have "a @ b = replicate (length (a @ b)) False"
    using a'(1) b'(1) by (metis length_append replicate_add)
  with a b a'(2) b'(2) show ?case by simp
qed

lemma navigate_funpow:
  assumes m: "marked_page p bs"
  shows "marked_page ((navigateSearch 1 ^^ k) p) bs
    \<and> currentSearchIndex ((navigateSearch 1 ^^ k) p)
        = (currentSearchIndex p + int k) mod int (length (pageHighlights bs))"
proof (induction k)
  case 0
  from m have "0 \<le> currentSearchIndex p"
      "currentSearchIndex p < int (length (pageHighlights bs))"
    by (simp_all add: marked_page_def)
  with m show ?case by simp
next
  case (Suc k)
  let ?q = "(navigateSearch 1 ^^ k) p"
  let ?N = "int (length (pageHighlights bs))"
  from Suc have mq: "marked_page ?q bs"
    and iq: "currentSearchIndex ?q = (currentSearchIndex p + int k) mod ?N"
    by simp_all
  from mq have r: "0 \<le> currentSearchIndex ?q" "currentSearchIndex ?q < ?N"
    by (simp_all add: marked_page_def)
  have "currentSearchIndex (navigateSearch 1 ?q) = wrapIndex ?N (currentSearchIndex ?q) 1"
    using mq by (rule navigate_step(2))
  also have "\<dots> = (currentSearchIndex ?q + 1) mod ?N"
    using r by (rule wrapIndex_forward)
  also have "\<dots> = ((currentSearchIndex p + int k) mod ?N + 1) mod ?N"
    by (simp only: iq)
  also have "\<dots> = ((currentSearchIndex p + int k) + 1) mod ?N"
    by (rule mod_add_left_eq)
  also have "(currentSearchIndex p + int k) + 1 = currentSearchIndex p + int (Suc k)"
    by simp
  finally have "currentSearchIndex (navigateSearch 1 ?q)
      = (currentSearchIndex p + int (Suc k)) mod ?N" .
  moreover have "marked_page (navigateSearch 1 ?q) bs" using mq by (rule navigate_step(1))
  ultimately show ?case by simp
qed

lemma navigate_round:
  assumes "search_ok p"
  shows "currentSearchIndex ((navigateSearch 1 ^^ length (searchMatches p)) p)
       = currentSearchIndex p
    \<and> map body (blocks ((navigateSearch 1 ^^ length (searchMatches p)) p))
       = map body (blocks p)"
proof (cases "searchMatches p = []")
  case True
  then show ?thesis by simp
next
  case False
  with assms obtain bs where m: "marked_page p bs" unfolding search_ok_def by blast
  let ?N = "length (pageHighlights bs)"
  let ?q = "(navigateSearch 1 ^^ ?N) p"
  from m have len: "length (searchMatches p) = ?N"
    and i: "0 \<le> currentSearchIndex p" "currentSearchIndex p < int ?N"
    and b: "map body (blocks p) = map body (addCurrent (nat (currentSearchIndex p)) bs)"
    by (simp_all add: marked_page_def)
  from navigate_funpow [OF m, of ?N]
  have mq: "marked_page ?q bs"
    and iq: "currentSearchIndex ?q = (currentSearchIndex p + int ?N) mod int ?N"
    by simp_all
  from iq i have same: "currentSearchIndex ?q = currentSearchIndex p" by simp
  from mq have "map body (blocks ?q) = map body (addCurrent (nat (currentSearchIndex ?q)) bs)"
    by (simp add: marked_page_def)
  with same b have "map body (blocks ?q) = map body (blocks p)" by simp
  with same len show ?thesis by simp
qed

text \<open>
  Claim C9. With no matches \<open>navigateSearch\<close> changes nothing. Otherwise the match list
  stays, the current index becomes \<open>wrapIndex\<close> of the old one (the index moved by the
  direction, a value from the match count upwards replaced by 0 and a negative one by the
  last position), and the result text is the new index plus one, \<open>/\<close>, the match
  count and \<open>matches\<close>. On a page the application can be in, one step forward or
  backward is the step modulo the match count, and as many steps forward as there are
  matches bring back the current index and the bodies as they were, marks included.
\<close>

theorem navigateSearch_wraps:
  "(searchMatches p = [] \<longrightarrow> navigateSearch d p = p)
   \<and> (searchMatches p \<noteq> [] \<longrightarrow>
        searchMatches (navigateSearch d p) = searchMatches p
        \<and> currentSearchIndex (navigateSearch d p)
            = wrapIndex (int (length (searchMatches p))) (currentSearchIndex p) d
        \<and> resultsCount (navigateSearch d p)
            = numberToString (currentSearchIndex (navigateSearch d p) + 1) @ '' / ''
                @ numberToString (int (length (searchMatches p))) @ '' matches'')
   \<and> wrapIndex n (n - 1) 1 = 0
   \<and> (0 < n \<longrightarrow> wrapIndex n 0 (- 1) = n - 1)
   \<and> (reachable p \<and> searchMatches p \<noteq> [] \<longrightarrow>
        currentSearchIndex (navigateSearch 1 p)
          = (currentSearchIndex p + 1) mod int (length (searchMatches p))
        \<and> currentSearchIndex (navigateSearch (- 1) p)
          = (currentSearchIndex p - 1) mod int (length (searchMatches p)))
   \<and> (reachable p \<longrightarrow>
        currentSearchIndex ((navigateSearch 1 ^^ length (searchMatches p)) p)
          = currentSearchIndex p
        \<and> map body (blocks ((navigateSearch 1 ^^ length (searchMatches p)) p))
          = map body (blocks p))"
proof -
  have a: "searchMatches p = [] \<longrightarrow> navigateSearch d p = p"
    by (simp add: navigateSearch_none)
  have b: "searchMatches p \<noteq> [] \<longrightarrow>
      searchMatches (navigateSearch d p) = searchMatches p
      \<and> currentSearchIndex (navigateSearch d p)
          = wrapIndex (int (length (searchMatches p))) (currentSearchIndex p) d
      \<and> resultsCount (navigateSearch d p)
          = numberToString (currentSearchIndex (navigateSearch d p) + 1) @ '' / ''
              @ numberToString (int (length (searchMatches p))) @ '' matches''"
    using navigateSearch_fields [of p d] by blast
  have c: "wrapIndex n (n - 1) 1 = 0" by (simp add: wrapIndex_def Let_def)
  have c': "0 < n \<longrightarrow> wrapIndex n 0 (- 1) = n - 1" by (simp add: wrapIndex_def Let_def)
  have e: "reachable p \<and> searchMatches p \<noteq> [] \<longrightarrow>
      currentSearchIndex (navigateSearch 1 p)
        = (currentSearchIndex p + 1) mod int (length (searchMatches p))
      \<and> currentSearchIndex (navigateSearch (- 1) p)
        = (currentSearchIndex p - 1) mod int (length (searchMatches p))"
  proof
    assume h: "reachable p \<and> searchMatches p \<noteq> []"
    then have "search_inv p" by (intro search_ok_inv reachable_ok) simp
    with h have r: "0 \<le> currentSearchIndex p"
        "currentSearchIndex p < int (length (searchMatches p))"
      by (simp_all add: search_inv_def)
    from h navigateSearch_fields(2) [of p]
    have "currentSearchIndex (navigateSearch 1 p)
        = wrapIndex (int (length (searchMatches p))) (currentSearchIndex p) 1"
      and "currentSearchIndex (navigateSearch (- 1) p)
        = wrapIndex (int (length (searchMatches p))) (currentSearchIndex p) (- 1)"
      by blast+
    with r show "currentSearchIndex (navigateSearch 1 p)
        = (currentSearchIndex p + 1) mod int (length (searchMatches p))
      \<and> currentSearchIndex (navigateSearch (- 1) p)
        = (currentSearchIndex p - 1) mod int (length (searchMatches p))"
      by (simp add: wrapIndex_forward wrapIndex_backward)
  qed
  have f: "reachable p \<longrightarrow>
      currentSearchIndex ((navigateSearch 1 ^^ length (searchMatches p)) p)
        = currentSearchIndex p
      \<and> map body (blocks ((navigateSearch 1 ^^ length (searchMatches p)) p))
        = map body (blocks p)"
    using navigate_round [of p] reachable_ok [of p] by blast
  from a b c c' e f show ?thesis by (intro conjI)
qed

lemma searched_rate:
  "\<exists>p'. performSearch ''rate'' search_page = Some p'
     \<and> searchMatches p' = [0, 1, 2] \<and> currentSearchIndex p' = 0"
proof -
  have "map_option (\<lambda>p. (searchMatches p, currentSearchIndex p))
      (performSearch ''rate'' search_page) = Some ([0, 1, 2], 0)"
    by code_simp
  then show ?thesis by auto
qed

text \<open>
  The theorem on the page that the search for \<open>rate\<close> gives on \<open>search_page\<close>: three
  matches, the first current; one step back shows \<open>3 / 3 matches\<close>, and three steps
  forward lead back to the first match.
\<close>

theorem navigateSearch_wraps_witness:
  "\<exists>p'. performSearch ''rate'' search_page = Some p' \<and> reachable p'
     \<and> searchMatches p' = [0, 1, 2] \<and> currentSearchIndex p' = 0
     \<and> currentSearchIndex (navigateSearch (- 1) p') = 2
     \<and> resultsCount (navigateSearch (- 1) p') = ''3 / 3 matches''
     \<and> currentSearchIndex (navigateSearch 1 p') = 1
     \<and> currentSearchIndex ((navigateSearch 1 ^^ 3) p') = 0
     \<and> map body (blocks ((navigateSearch 1 ^^ 3) p')) = map body (blocks p')"
proof -
  from searched_rate obtain p' where p': "performSearch ''rate'' search_page = Some p'"
      "searchMatches p' = [0, 1, 2]" "currentSearchIndex p' = 0"
    by blast
  have "reachable search_page" using search_page_start by (intro reachable.start) simp_all
  then have r: "reachable p'" using p'(1) by (rule reachable.search)
  from p'(2) have ne: "searchMatches p' \<noteq> []" and len: "length (searchMatches p') = 3"
    by simp_all
  note t = navigateSearch_wraps [of p' "- 1" 3]
  from t ne have i: "currentSearchIndex (navigateSearch (- 1) p') = wrapIndex 3 0 (- 1)"
    and c: "resultsCount (navigateSearch (- 1) p')
      = numberToString (currentSearchIndex (navigateSearch (- 1) p') + 1) @ '' / ''
          @ numberToString 3 @ '' matches''"
    by (simp_all add: len p'(3))
  from t have w: "wrapIndex 3 0 (- 1) = (2::int)" by simp
  from i w have i2: "currentSearchIndex (navigateSearch (- 1) p') = 2" by simp
  have n: "numberToString 3 = ''3''" by code_simp
  from c i2 n have c2: "resultsCount (navigateSearch (- 1) p') = ''3 / 3 matches''" by simp
  from t r ne have f: "currentSearchIndex (navigateSearch 1 p') = 1"
    by (simp add: len p'(3))
  from t r have "currentSearchIndex ((navigateSearch 1 ^^ length (searchMatches p')) p')
        = currentSearchIndex p'
      \<and> map body (blocks ((navigateSearch 1 ^^ length (searchMatches p')) p'))
        = map body (blocks p')"
    by blast
  then have b: "currentSearchIndex ((navigateSearch 1 ^^ 3) p') = 0
      \<and> map body (blocks ((navigateSearch 1 ^^ 3) p')) = map body (blocks p')"
    by (simp only: len p'(3))
  from p' r i2 c2 f b show ?thesis by blast
qed

text \<open>
  Claim C10. On every page the application can be in, so after each of
  \<open>performSearch\<close>, \<open>navigateSearch\<close> and \<open>clearSearch\<close>, with any filter and folding
  clicks between them, the current index is \<open>-1\<close>
  exactly when the match list is empty, otherwise it is a position of the match list,
  and a match carries the class \<open>current\<close> exactly when it is the one at the current
  index.
\<close>

theorem reachable_search_inv: "reachable p \<Longrightarrow> search_inv p"
  by (intro search_ok_inv reachable_ok)

text \<open>
  The theorem on \<open>search_page\<close> after the search for \<open>rate\<close> and one step back: the
  index is 2 of three matches, and of the three highlight elements only the last is
  marked.
\<close>

theorem reachable_search_inv_witness:
  "\<exists>p'. performSearch ''rate'' search_page = Some p'
     \<and> reachable (navigateSearch (- 1) p')
     \<and> search_inv (navigateSearch (- 1) p')
     \<and> searchMatches (navigateSearch (- 1) p') = [0, 1, 2]
     \<and> currentSearchIndex (navigateSearch (- 1) p') = 2
     \<and> ''current'' \<in> pageHighlights (blocks (navigateSearch (- 1) p')) ! 2
     \<and> ''current'' \<notin> pageHighlights (blocks (navigateSearch (- 1) p')) ! 0
     \<and> ''current'' \<notin> pageHighlights (blocks (navigateSearch (- 1) p')) ! 1"
proof -
  from searched_rate obtain p' where p': "performSearch ''rate'' search_page = Some p'"
      "searchMatches p' = [0, 1, 2]" "currentSearchIndex p' = 0"
    by blast
  let ?q = "navigateSearch (- 1) p'"
  have "reachable search_page" using search_page_start by (intro reachable.start) simp_all
  then have "reachable p'" using p'(1) by (rule reachable.search)
  then have r: "reachable ?q" by (rule reachable.navigate) simp
  from p'(2) have ne: "searchMatches p' \<noteq> []" by simp
  have sm: "searchMatches ?q = [0, 1, 2]"
    using navigateSearch_fields(1) [OF ne, of "- 1"] p'(2) by simp
  have ix: "currentSearchIndex ?q = 2"
    using navigateSearch_fields(2) [OF ne, of "- 1"] p'(2,3)
    by (simp add: wrapIndex_def Let_def)
  note inv = reachable_search_inv [OF r]
  then have each: "\<forall>k < length (searchMatches ?q).
      ''current'' \<in> pageHighlights (blocks ?q) ! (searchMatches ?q ! k)
        \<longleftrightarrow> int k = currentSearchIndex ?q"
    by (simp add: search_inv_def)
  from each [rule_format, of 0] each [rule_format, of 1] each [rule_format, of 2] sm ix
  have "''current'' \<notin> pageHighlights (blocks ?q) ! 0"
    "''current'' \<notin> pageHighlights (blocks ?q) ! 1"
    "''current'' \<in> pageHighlights (blocks ?q) ! 2"
    by simp_all
  with p'(1) r inv sm ix show ?thesis by blast
qed

end
